theory Spec2Isabelle
  imports Complex_Main "HOL-Library.Multiset"
begin

section \<open>Numbers\<close>

text \<open>
  A JavaScript \<open>number\<close> is an IEEE 754 double: a finite value (a rational
  \<open>m * 2^e\<close> with \<open>|m| < 2^53\<close> and \<open>-1074 \<le> e \<le> 971\<close>), one of the two
  infinities, or NaN. The sign of zero is not modelled: it shows only when a number is
  divided by zero, which the engine never does.
\<close>

datatype JsNumber = Num real | PosInfinity | NegInfinity | NaN

text \<open>\<open>log2floor n\<close> is the integer part of the binary logarithm of \<open>n \<ge> 1\<close>, and
  \<open>exponentOf x\<close> the \<open>e\<close> with \<open>2^e \<le> x < 2^(e+1)\<close> for a positive real \<open>x\<close>.\<close>

fun log2floor :: "nat \<Rightarrow> nat" where
  "log2floor n = (if n < 2 then 0 else Suc (log2floor (n div 2)))"

declare log2floor.simps [simp del]

definition exponentOf :: "real \<Rightarrow> int" where
  "exponentOf x =
     (if 1 \<le> x then int (log2floor (nat \<lfloor>x\<rfloor>))
      else - int (Suc (log2floor (nat \<lceil>1 / x\<rceil> - 1))))"

text \<open>The nearest integer, a tie going to the even one.\<close>

definition roundEven :: "real \<Rightarrow> int" where
  "roundEven y =
     (let f = \<lfloor>y\<rfloor>;
          d = y - of_int f
      in if d < 1 / 2 then f else if 1 / 2 < d then f + 1 else if even f then f else f + 1)"

definition signedInfinity :: "bool \<Rightarrow> JsNumber" where
  "signedInfinity positive = (if positive then PosInfinity else NegInfinity)"

text \<open>
  The double an arithmetic operation returns for the exact result \<open>x\<close>: \<open>x\<close> rounded
  to the nearest multiple \<open>r * 2^(e - 52)\<close>, where \<open>e\<close> is the exponent of \<open>x\<close> and at
  least -1022 (below \<open>2^(-1022)\<close> the doubles are evenly spaced), a tie going to the even
  \<open>r\<close>. The largest double is \<open>(2^53 - 1) * 2^(1023 - 52)\<close>: a result that rounds to
  \<open>2^1024\<close> or more (\<open>e\<close> above 1023, or \<open>e = 1023\<close> and \<open>r = 2^53\<close>) is infinite.
\<close>

definition toDouble :: "real \<Rightarrow> JsNumber" where
  "toDouble x =
     (if x = 0 then Num 0
      else
        (let e = max (exponentOf \<bar>x\<bar>) (- 1022);
             q = 2 powi (e - 52);
             r = roundEven (\<bar>x\<bar> / q)
         in if 1023 < e \<or> (e = 1023 \<and> 2 ^ 53 \<le> r) then signedInfinity (0 < x)
            else Num (if 0 < x then of_int r * q else - (of_int r * q))))"

text \<open>The operators \<open>*\<close>, \<open>+\<close> and \<open>/\<close> on numbers.\<close>

fun jsMul :: "JsNumber \<Rightarrow> JsNumber \<Rightarrow> JsNumber" where
  "jsMul (Num x) (Num y) = toDouble (x * y)"
| "jsMul (Num x) PosInfinity = (if x = 0 then NaN else signedInfinity (0 < x))"
| "jsMul (Num x) NegInfinity = (if x = 0 then NaN else signedInfinity (x < 0))"
| "jsMul PosInfinity (Num y) = (if y = 0 then NaN else signedInfinity (0 < y))"
| "jsMul NegInfinity (Num y) = (if y = 0 then NaN else signedInfinity (y < 0))"
| "jsMul PosInfinity PosInfinity = PosInfinity"
| "jsMul PosInfinity NegInfinity = NegInfinity"
| "jsMul NegInfinity PosInfinity = NegInfinity"
| "jsMul NegInfinity NegInfinity = PosInfinity"
| "jsMul NaN b = NaN"
| "jsMul a NaN = NaN"

fun jsAdd :: "JsNumber \<Rightarrow> JsNumber \<Rightarrow> JsNumber" where
  "jsAdd (Num x) (Num y) = toDouble (x + y)"
| "jsAdd (Num x) PosInfinity = PosInfinity"
| "jsAdd (Num x) NegInfinity = NegInfinity"
| "jsAdd PosInfinity (Num y) = PosInfinity"
| "jsAdd NegInfinity (Num y) = NegInfinity"
| "jsAdd PosInfinity PosInfinity = PosInfinity"
| "jsAdd PosInfinity NegInfinity = NaN"
| "jsAdd NegInfinity PosInfinity = NaN"
| "jsAdd NegInfinity NegInfinity = NegInfinity"
| "jsAdd NaN b = NaN"
| "jsAdd a NaN = NaN"

fun jsDiv :: "JsNumber \<Rightarrow> JsNumber \<Rightarrow> JsNumber" where
  "jsDiv (Num x) (Num y) =
     (if y = 0 then (if x = 0 then NaN else signedInfinity (0 < x)) else toDouble (x / y))"
| "jsDiv (Num x) PosInfinity = Num 0"
| "jsDiv (Num x) NegInfinity = Num 0"
| "jsDiv PosInfinity (Num y) = signedInfinity (0 \<le> y)"
| "jsDiv NegInfinity (Num y) = signedInfinity (y < 0)"
| "jsDiv PosInfinity PosInfinity = NaN"
| "jsDiv PosInfinity NegInfinity = NaN"
| "jsDiv NegInfinity PosInfinity = NaN"
| "jsDiv NegInfinity NegInfinity = NaN"
| "jsDiv NaN b = NaN"
| "jsDiv a NaN = NaN"

section \<open>Data model (types.ts)\<close>

text \<open>
  Times are milliseconds on one clock (\<open>Date.now()\<close>); a \<open>Date\<close> is the clock value
  at which it was created. Counters and millisecond values are natural numbers (they are
  integers, which a double holds exactly below \<open>2^53\<close>); the running average takes
  fractional values and is a number, computed with the rounding operations on doubles.
\<close>

datatype AgentStatus = Idle | Running | Paused | Stopped | Error

datatype AgentPriority = Low | Normal | High | Critical

text \<open>The configuration a caller passes: optional fields are options.\<close>

record AgentConfigInput =
  id_in :: string
  name_in :: string
  description_in :: "string option"
  priority_in :: "AgentPriority option"
  maxRetries_in :: "nat option"
  retryDelayMs_in :: "nat option"
  timeoutMs_in :: "nat option"
  enabled_in :: "bool option"

text \<open>\<open>Required<AgentConfig>\<close>: every field present.\<close>

record AgentConfig =
  id_cfg :: string
  name_cfg :: string
  description :: string
  priority :: AgentPriority
  maxRetries :: nat
  retryDelayMs :: nat
  timeoutMs :: nat
  enabled :: bool

text \<open>An \<open>Error\<close> object, by its message.\<close>

datatype JsError = NewError string

text \<open>
  What a \<open>throw\<close> or a rejected promise carries: an \<open>Error\<close>, or any other value
  (given by its \<open>String(...)\<close> form).
\<close>

datatype Thrown = ThrownError JsError | ThrownOther string

record AgentContext =
  agentId :: string
  startedAt :: nat
  iteration :: nat
  lastError :: "JsError option"
  metadata :: "(string \<times> string) list"

record AgentMetrics =
  totalExecutions :: nat
  successfulExecutions :: nat
  failedExecutions :: nat
  averageExecutionTimeMs :: JsNumber
  lastExecutionAt :: "nat option"
  uptime :: nat

record 'r ExecutionResult =
  success :: bool
  data :: "'r option"
  error :: "JsError option"
  executionTimeMs :: nat
  timestamp :: nat

record 'p AgentEvent =
  type_ev :: string
  agentId_ev :: string
  payload :: 'p
  timestamp_ev :: nat

text \<open>The payloads the engine puts on its events.\<close>

datatype 'r Payload =
    ConfigPayload AgentConfig
  | MetricsPayload AgentMetrics
  | EmptyPayload
  | IterationPayload nat
  | CompletePayload 'r nat
  | ErrorPayload "JsError option"

section \<open>Promises\<close>

text \<open>
  The state of an awaited promise when the awaiting code would resume: fulfilled with a
  value, rejected with what was thrown, or never settled. An \<open>async\<close> method is a
  function from the state before the call to the outcome of its promise and the state
  after it.
\<close>

datatype 'a Outcome = Fulfilled 'a | Rejected Thrown | Pending

text \<open>\<open>await p\<close> followed by the rest of the method: a rejection or a promise that never
  settles ends the method there.\<close>

definition await :: "'a Outcome \<times> 's \<Rightarrow> ('a \<Rightarrow> 's \<Rightarrow> 'b Outcome \<times> 's) \<Rightarrow> 'b Outcome \<times> 's" where
  "await p k =
     (case p of
        (Fulfilled v, s) \<Rightarrow> k v s
      | (Rejected e, s) \<Rightarrow> (Rejected e, s)
      | (Pending, s) \<Rightarrow> (Pending, s))"

section \<open>Events (events.ts): the catalog and createEvent\<close>

definition STARTED :: string where "STARTED = ''agent:started''"
definition STOPPED :: string where "STOPPED = ''agent:stopped''"
definition PAUSED :: string where "PAUSED = ''agent:paused''"
definition RESUMED :: string where "RESUMED = ''agent:resumed''"
definition ERROR :: string where "ERROR = ''agent:error''"
definition EXECUTION_START :: string where "EXECUTION_START = ''agent:execution:start''"
definition EXECUTION_COMPLETE :: string where "EXECUTION_COMPLETE = ''agent:execution:complete''"
definition EXECUTION_FAILED :: string where "EXECUTION_FAILED = ''agent:execution:failed''"
definition METRICS_UPDATED :: string where "METRICS_UPDATED = ''agent:metrics:updated''"

text \<open>\<open>createEvent(type, agentId, payload)\<close>; the last argument is the clock at the call.\<close>

definition createEvent :: "string \<Rightarrow> string \<Rightarrow> 'p \<Rightarrow> nat \<Rightarrow> 'p AgentEvent" where
  "createEvent ty aid p t = \<lparr>type_ev = ty, agentId_ev = aid, payload = p, timestamp_ev = t\<rparr>"

section \<open>The execution engine (BaseAgent)\<close>

text \<open>
  The unit of work is the abstract method \<open>execute\<close>. Its behaviour is given call by
  call: what the promise of the \<open>n\<close>-th call does, and after how many milliseconds.
\<close>

datatype 'r Work = Resolves nat 'r | Rejects nat Thrown | Hangs

datatype Hook = OnStart | OnStop | OnPause | OnResume | OnError "JsError option"

text \<open>
  What the engine does to the outside, in order: events handed to \<open>eventBus.emit\<close>,
  hook calls, calls of \<open>execute\<close> (with the loop's attempt index), \<open>delay\<close> calls
  (with their milliseconds) and \<open>setInterval\<close> calls (handle and period).
\<close>

datatype 'r Effect =
    Emitted "'r Payload AgentEvent"
  | Hooked Hook
  | Attempt nat
  | Waited nat
  | Armed nat nat

text \<open>
  The object: its fields, the implementation of \<open>execute\<close> with the number of calls made
  so far, the clock, the periodic triggers this engine has armed and not cleared
  (handle, period, time of arming), and the effects so far.
\<close>

record 'r BaseAgent =
  config :: AgentConfig
  status :: AgentStatus
  ctx :: AgentContext
  metrics :: AgentMetrics
  intervalId :: "nat option"
  startTime :: "nat option"
  execute :: "nat \<Rightarrow> 'r Work"
  execCalls :: nat
  now :: nat
  timers :: "(nat \<times> nat \<times> nat) list"
  timerSeq :: nat
  effects :: "'r Effect list"

text \<open>
  The constructor, at clock \<open>t\<close>: defaults first, then the caller's fields. An optional
  field of the caller's configuration is absent or holds a value of its type; a field
  that is present and holds \<open>undefined\<close> is not part of the model.
\<close>

definition resolveConfig :: "AgentConfigInput \<Rightarrow> AgentConfig" where
  "resolveConfig c =
     \<lparr>id_cfg = id_in c,
      name_cfg = name_in c,
      description = (case description_in c of None \<Rightarrow> [] | Some d \<Rightarrow> d),
      priority = (case priority_in c of None \<Rightarrow> Normal | Some p \<Rightarrow> p),
      maxRetries = (case maxRetries_in c of None \<Rightarrow> 3 | Some n \<Rightarrow> n),
      retryDelayMs = (case retryDelayMs_in c of None \<Rightarrow> 1000 | Some n \<Rightarrow> n),
      timeoutMs = (case timeoutMs_in c of None \<Rightarrow> 30000 | Some n \<Rightarrow> n),
      enabled = (case enabled_in c of None \<Rightarrow> True | Some b \<Rightarrow> b)\<rparr>"

definition newBaseAgent :: "AgentConfigInput \<Rightarrow> (nat \<Rightarrow> 'r Work) \<Rightarrow> nat \<Rightarrow> 'r BaseAgent" where
  "newBaseAgent c exec t =
     \<lparr>config = resolveConfig c,
      status = Idle,
      ctx = \<lparr>agentId = id_in c, startedAt = t, iteration = 0, lastError = None, metadata = []\<rparr>,
      metrics = \<lparr>totalExecutions = 0, successfulExecutions = 0, failedExecutions = 0,
                 averageExecutionTimeMs = Num 0, lastExecutionAt = None, uptime = 0\<rparr>,
      intervalId = None,
      startTime = None,
      execute = exec,
      execCalls = 0,
      now = t,
      timers = [],
      timerSeq = 0,
      effects = []\<rparr>"

subsection \<open>Collaborators as the engine sees them\<close>

text \<open>
  \<open>this.eventBus.emit(event)\<close>: the event is handed to the bus. The promise of
  \<open>EventBus.emit\<close> is never rejected (see the bus below); subscribers are taken to
  settle, to take no time on this clock and not to call back into the engine.
\<close>

definition eventBus_emit :: "'r Payload AgentEvent \<Rightarrow> 'r BaseAgent \<Rightarrow> 'r BaseAgent" where
  "eventBus_emit ev s = s\<lparr>effects := effects s @ [Emitted ev]\<rparr>"

text \<open>The hooks of the base class: empty bodies (\<open>onError\<close> only logs).\<close>

definition onStart :: "'r BaseAgent \<Rightarrow> 'r BaseAgent" where
  "onStart s = s\<lparr>effects := effects s @ [Hooked OnStart]\<rparr>"

definition onStop :: "'r BaseAgent \<Rightarrow> 'r BaseAgent" where
  "onStop s = s\<lparr>effects := effects s @ [Hooked OnStop]\<rparr>"

definition onPause :: "'r BaseAgent \<Rightarrow> 'r BaseAgent" where
  "onPause s = s\<lparr>effects := effects s @ [Hooked OnPause]\<rparr>"

definition onResume :: "'r BaseAgent \<Rightarrow> 'r BaseAgent" where
  "onResume s = s\<lparr>effects := effects s @ [Hooked OnResume]\<rparr>"

definition onError :: "JsError option \<Rightarrow> 'r BaseAgent \<Rightarrow> 'r BaseAgent" where
  "onError e s = s\<lparr>effects := effects s @ [Hooked (OnError e)]\<rparr>"

text \<open>\<open>setInterval(() => this.tick(), ms)\<close>: a fresh, truthy handle.\<close>

definition setInterval :: "nat \<Rightarrow> 'r BaseAgent \<Rightarrow> nat \<times> 'r BaseAgent" where
  "setInterval ms s =
     (let h = Suc (timerSeq s)
      in (h, s\<lparr>timers := timers s @ [(h, ms, now s)], timerSeq := h,
               effects := effects s @ [Armed h ms]\<rparr>))"

definition clearInterval :: "nat \<Rightarrow> 'r BaseAgent \<Rightarrow> 'r BaseAgent" where
  "clearInterval h s = s\<lparr>timers := filter (\<lambda>(k, ms, t). k \<noteq> h) (timers s)\<rparr>"

text \<open>\<open>this.execute(this.context)\<close> in attempt \<open>attempt\<close> of the loop: the promise of
  the next call.\<close>

definition callExecute :: "nat \<Rightarrow> 'r BaseAgent \<Rightarrow> 'r Work \<times> 'r BaseAgent" where
  "callExecute attempt s =
     (execute s (execCalls s),
      s\<lparr>execCalls := Suc (execCalls s), effects := effects s @ [Attempt attempt]\<rparr>)"

subsection \<open>withTimeout, delay\<close>

text \<open>
  \<open>Promise.race\<close> of the work against a timer of \<open>timeoutMs\<close>: the one that settles
  first wins; the work wins a tie (its timer was set first). Awaiting the race moves the
  clock to the moment it settles.
\<close>

definition withTimeout :: "'r Work \<Rightarrow> 'r BaseAgent \<Rightarrow> 'r Outcome \<times> 'r BaseAgent" where
  "withTimeout promise s =
     (let expired = (Rejected (ThrownError (NewError ''Execution timeout'')),
                     s\<lparr>now := now s + timeoutMs (config s)\<rparr>)
      in case promise of
           Resolves d v \<Rightarrow>
             if d \<le> timeoutMs (config s) then (Fulfilled v, s\<lparr>now := now s + d\<rparr>) else expired
         | Rejects d e \<Rightarrow>
             if d \<le> timeoutMs (config s) then (Rejected e, s\<lparr>now := now s + d\<rparr>) else expired
         | Hangs \<Rightarrow> expired)"

definition delay :: "nat \<Rightarrow> 'r BaseAgent \<Rightarrow> 'r BaseAgent" where
  "delay ms s = s\<lparr>now := now s + ms, effects := effects s @ [Waited ms]\<rparr>"

subsection \<open>updateMetrics\<close>

definition updateMetrics :: "'r ExecutionResult \<Rightarrow> 'r BaseAgent \<Rightarrow> 'r BaseAgent" where
  "updateMetrics result s =
     (let m1 = (metrics s)\<lparr>totalExecutions := totalExecutions (metrics s) + 1\<rparr>;
          m2 = (if success result
                then m1\<lparr>successfulExecutions := successfulExecutions m1 + 1\<rparr>
                else m1\<lparr>failedExecutions := failedExecutions m1 + 1\<rparr>);
          totalTime = jsMul (averageExecutionTimeMs m2) (Num (real (totalExecutions m2) - 1));
          m3 = m2\<lparr>averageExecutionTimeMs :=
                     jsDiv (jsAdd totalTime (Num (real (executionTimeMs result))))
                       (Num (real (totalExecutions m2)))\<rparr>;
          m4 = m3\<lparr>lastExecutionAt := Some (timestamp result)\<rparr>;
          m5 = (case startTime s of
                  Some t0 \<Rightarrow> m4\<lparr>uptime := now s - t0\<rparr>
                | None \<Rightarrow> m4)
      in s\<lparr>metrics := m5\<rparr>)"

subsection \<open>executeWithRetry\<close>

definition toError :: "Thrown \<Rightarrow> JsError" where
  "toError thrown = (case thrown of ThrownError e \<Rightarrow> e | ThrownOther v \<Rightarrow> NewError v)"

text \<open>The code after the loop: every attempt has failed (or there was none).\<close>

definition terminalFailure ::
  "nat \<Rightarrow> JsError option \<Rightarrow> 'r BaseAgent \<Rightarrow> 'r ExecutionResult Outcome \<times> 'r BaseAgent" where
  "terminalFailure startTime' lastError' s =
     (let s1 = s\<lparr>status := Error\<rparr>;
          s2 = onError lastError' s1;
          s3 = eventBus_emit
                 (createEvent EXECUTION_FAILED (id_cfg (config s2)) (ErrorPayload lastError') (now s2)) s2;
          s4 = eventBus_emit
                 (createEvent ERROR (id_cfg (config s3)) (ErrorPayload lastError') (now s3)) s3
      in (Fulfilled \<lparr>success = False, data = None, error = lastError',
                      executionTimeMs = now s4 - startTime', timestamp = now s4\<rparr>, s4))"

text \<open>
  The \<open>catch\<close> block of an attempt: the thrown value becomes the last error (local
  variable and \<open>context.lastError\<close>), and every attempt but the last one waits.
\<close>

definition catchBlock :: "nat \<Rightarrow> Thrown \<Rightarrow> 'r BaseAgent \<Rightarrow> JsError \<times> 'r BaseAgent" where
  "catchBlock attempt thrown s =
     (let e = toError thrown;
          s1 = s\<lparr>ctx := (ctx s)\<lparr>lastError := Some e\<rparr>\<rparr>
      in (e, if int attempt < int (maxRetries (config s1)) - 1
             then delay (retryDelayMs (config s1) * (attempt + 1)) s1
             else s1))"

text \<open>The \<open>for\<close> loop, from its test with the loop variable at \<open>attempt\<close>.\<close>

function retryLoop ::
  "nat \<Rightarrow> nat \<Rightarrow> JsError option \<Rightarrow> 'r BaseAgent \<Rightarrow> 'r ExecutionResult Outcome \<times> 'r BaseAgent" where
  "retryLoop startTime' attempt lastError' s =
     (if attempt < maxRetries (config s) then
        (case callExecute attempt s of (promise, s1) \<Rightarrow>
          (case withTimeout promise s1 of
             (Fulfilled d, s2) \<Rightarrow>
               (let executionTimeMs' = now s2 - startTime';
                    s3 = eventBus_emit
                           (createEvent EXECUTION_COMPLETE (id_cfg (config s2))
                              (CompletePayload d executionTimeMs') (now s2)) s2
                in (Fulfilled \<lparr>success = True, data = Some d, error = None,
                                executionTimeMs = executionTimeMs', timestamp = now s3\<rparr>, s3))
           | (Rejected thrown, s2) \<Rightarrow>
               (case catchBlock attempt thrown s2 of (e, s3) \<Rightarrow>
                  retryLoop startTime' (attempt + 1) (Some e) s3)
           | (Pending, s2) \<Rightarrow> (Pending, s2)))
      else terminalFailure startTime' lastError' s)"
  by pat_completeness auto
termination
proof (relation "measure (\<lambda>(t0, attempt, e, s). maxRetries (config s) - attempt)")
  show "wf (measure (\<lambda>(t0, attempt, e, s). maxRetries (config s) - attempt))"
    by simp
next
  fix startTime' attempt :: nat and lastError' :: "JsError option" and s :: "'r BaseAgent"
    and promise s1 outcome s2 thrown e s3
  assume lt: "attempt < maxRetries (config s)"
    and c: "(promise, s1) = callExecute attempt s"
    and w: "(outcome, s2) = withTimeout promise s1"
    and k: "(e, s3) = catchBlock attempt thrown s2"
  have "config (snd (callExecute attempt s)) = config s"
    by (simp add: callExecute_def)
  then have "config s1 = config s"
    using c [symmetric] by simp
  moreover have "config (snd (withTimeout promise s1)) = config s1"
    by (simp add: withTimeout_def Let_def split: Work.splits)
  then have "config s2 = config s1"
    using w [symmetric] by simp
  moreover have "config (snd (catchBlock attempt thrown s2)) = config s2"
    by (simp add: catchBlock_def delay_def Let_def)
  then have "config s3 = config s2"
    using k [symmetric] by simp
  ultimately have "config s3 = config s"
    by simp
  with lt show "((startTime', attempt + 1, Some e, s3), (startTime', attempt, lastError', s))
                \<in> measure (\<lambda>(t0, attempt, e, s). maxRetries (config s) - attempt)"
    by simp
qed

definition executeWithRetry :: "'r BaseAgent \<Rightarrow> 'r ExecutionResult Outcome \<times> 'r BaseAgent" where
  "executeWithRetry s =
     (let startTime' = now s;
          s1 = eventBus_emit
                 (createEvent EXECUTION_START (id_cfg (config s))
                    (IterationPayload (iteration (ctx s))) (now s)) s
      in retryLoop startTime' 0 None s1)"

declare retryLoop.simps [simp del]

subsection \<open>tick\<close>

definition tick :: "'r BaseAgent \<Rightarrow> unit Outcome \<times> 'r BaseAgent" where
  "tick s =
     (if status s \<noteq> Running \<or> \<not> enabled (config s) then (Fulfilled (), s)
      else
        (let s1 = s\<lparr>ctx := (ctx s)\<lparr>iteration := iteration (ctx s) + 1\<rparr>\<rparr>
         in await (executeWithRetry s1) (\<lambda>result s2.
              let s3 = updateMetrics result s2;
                  s4 = eventBus_emit
                         (createEvent METRICS_UPDATED (id_cfg (config s3))
                            (MetricsPayload (metrics s3)) (now s3)) s3
              in (Fulfilled (), s4))))"

subsection \<open>start, stop, pause, resume\<close>

text \<open>
  An \<open>async\<close> method is given as the whole call, from the call to the settlement of
  its promise. For \<open>tick\<close>, and for \<open>start\<close>, which awaits \<open>tick\<close>, the call is
  suspended while the races and delays of the cycle take their time. What these functions
  compute is what the engine does when no other callback of the engine runs in between,
  that is when no periodic trigger is due before the call ends (\<open>noTriggerDue\<close> below);
  the statements about the end of such a call carry that condition. A trigger that is
  due earlier starts a cycle that overlaps the suspended one: the section on the event
  loop gives the part of a call before its first suspension, which is the same in both
  cases.
\<close>

text \<open>
  The body of \<open>start\<close> between its guard and its last line \<open>await this.tick()\<close>.
  \<open>if (intervalMs)\<close> tests truthiness: an absent interval and the interval 0 both
  arm nothing.
\<close>

definition startBeforeTick :: "nat option \<Rightarrow> 'r BaseAgent \<Rightarrow> 'r BaseAgent" where
  "startBeforeTick intervalMs s =
     (let s1 = s\<lparr>status := Running\<rparr>;
          s2 = s1\<lparr>startTime := Some (now s1)\<rparr>;
          s3 = s2\<lparr>ctx := (ctx s2)\<lparr>startedAt := now s1\<rparr>\<rparr>;
          s4 = onStart s3;
          s5 = eventBus_emit
                 (createEvent STARTED (id_cfg (config s4)) (ConfigPayload (config s4)) (now s4)) s4
      in case intervalMs of
           None \<Rightarrow> s5
         | Some ms \<Rightarrow>
             if ms \<noteq> 0
             then (case setInterval ms s5 of (h, s6) \<Rightarrow> s6\<lparr>intervalId := Some h\<rparr>)
             else s5)"

definition start :: "nat option \<Rightarrow> 'r BaseAgent \<Rightarrow> unit Outcome \<times> 'r BaseAgent" where
  "start intervalMs s =
     (if status s = Running then (Fulfilled (), s)
      else tick (startBeforeTick intervalMs s))"

definition stop :: "'r BaseAgent \<Rightarrow> unit Outcome \<times> 'r BaseAgent" where
  "stop s =
     (if status s = Stopped then (Fulfilled (), s)
      else
        (let s1 = (case intervalId s of
                     Some h \<Rightarrow> (clearInterval h s)\<lparr>intervalId := None\<rparr>
                   | None \<Rightarrow> s);
             s2 = s1\<lparr>status := Stopped\<rparr>;
             s3 = onStop s2;
             s4 = eventBus_emit
                    (createEvent STOPPED (id_cfg (config s3)) (MetricsPayload (metrics s3)) (now s3)) s3
         in (Fulfilled (), s4)))"

definition pause :: "'r BaseAgent \<Rightarrow> unit Outcome \<times> 'r BaseAgent" where
  "pause s =
     (if status s \<noteq> Running then (Fulfilled (), s)
      else
        (let s1 = s\<lparr>status := Paused\<rparr>;
             s2 = onPause s1;
             s3 = eventBus_emit
                    (createEvent PAUSED (id_cfg (config s2)) EmptyPayload (now s2)) s2
         in (Fulfilled (), s3)))"

definition resume :: "'r BaseAgent \<Rightarrow> unit Outcome \<times> 'r BaseAgent" where
  "resume s =
     (if status s \<noteq> Paused then (Fulfilled (), s)
      else
        (let s1 = s\<lparr>status := Running\<rparr>;
             s2 = onResume s1;
             s3 = eventBus_emit
                    (createEvent RESUMED (id_cfg (config s2)) EmptyPayload (now s2)) s2
         in (Fulfilled (), s3)))"

subsection \<open>Histories of an engine\<close>

text \<open>
  What can happen to an engine, one thing after the other, each running to its end
  before the next: a call of a public method, an armed periodic trigger calling
  \<open>tick\<close>, time passing. A history describes a run of the engine in which no
  trigger is due while a cycle is suspended; the invariants of the metrics proved over
  histories are invariants of \<open>updateMetrics\<close>, which runs without suspension.
\<close>

datatype Step = Start "nat option" | Stop | Pause | Resume | Trigger | Elapse nat

fun step :: "Step \<Rightarrow> 'r BaseAgent \<Rightarrow> 'r BaseAgent" where
  "step (Start intervalMs) s = snd (start intervalMs s)"
| "step Stop s = snd (stop s)"
| "step Pause s = snd (pause s)"
| "step Resume s = snd (resume s)"
| "step Trigger s = (if timers s = [] then s else snd (tick s))"
| "step (Elapse n) s = s\<lparr>now := now s + n\<rparr>"

fun steps :: "Step list \<Rightarrow> 'r BaseAgent \<Rightarrow> 'r BaseAgent" where
  "steps [] s = s"
| "steps (x # xs) s = steps xs (step x s)"

section \<open>Overlapping cycles: the engine on the event loop\<close>

text \<open>
  \<open>steps\<close> runs every cycle to its end before anything else happens. On the event loop
  a call of \<open>tick\<close> runs only up to its first \<open>await\<close> that waits for a timer: the
  race of attempt 0. Until that race settles the cycle body is suspended, and other
  callbacks run. \<open>tickUntilAwait\<close> is that first part of \<open>tick\<close>: the guard, the
  increment, the start of \<open>executeWithRetry\<close> and the first call of \<open>execute\<close>. It
  returns the time at which the race settles. With \<open>maxRetries = 0\<close> the cycle awaits
  no timer and runs to its end at once.
\<close>

definition tickUntilAwait :: "'r BaseAgent \<Rightarrow> nat option \<times> 'r BaseAgent" where
  "tickUntilAwait s =
     (if status s \<noteq> Running \<or> \<not> enabled (config s) then (None, s)
      else if \<not> 0 < maxRetries (config s) then (None, snd (tick s))
      else
        (let s1 = s\<lparr>ctx := (ctx s)\<lparr>iteration := iteration (ctx s) + 1\<rparr>\<rparr>;
             s2 = eventBus_emit
                    (createEvent EXECUTION_START (id_cfg (config s1))
                       (IterationPayload (iteration (ctx s1))) (now s1)) s1
         in case callExecute 0 s2 of (promise, s3) \<Rightarrow>
              (Some (now (snd (withTimeout promise s3))), s3)))"

text \<open>
  The engine together with its suspended cycle bodies: for each, the time at which the
  race it awaits settles. Before that time the body cannot have gone on.
\<close>

record 'r EventLoop =
  engine :: "'r BaseAgent"
  suspended :: "nat list"

definition enterTick :: "'r EventLoop \<Rightarrow> 'r EventLoop" where
  "enterTick L =
     (case tickUntilAwait (engine L) of
        (None, s) \<Rightarrow> L\<lparr>engine := s\<rparr>
      | (Some t, s) \<Rightarrow> L\<lparr>engine := s, suspended := suspended L @ [t]\<rparr>)"

text \<open>A call of \<open>start\<close>, up to the suspension of its \<open>await this.tick()\<close>.\<close>

definition callStart :: "nat option \<Rightarrow> 'r EventLoop \<Rightarrow> 'r EventLoop" where
  "callStart intervalMs L =
     (if status (engine L) = Running then L
      else enterTick (L\<lparr>engine := startBeforeTick intervalMs (engine L)\<rparr>))"

text \<open>
  A periodic trigger is due at the time of its arming plus a positive multiple of its
  period. \<open>timerFires t\<close>: at time \<open>t\<close> a due trigger runs its callback
  \<open>() => this.tick()\<close>.
\<close>

definition due :: "nat \<Rightarrow> nat \<times> nat \<times> nat \<Rightarrow> bool" where
  "due t tm = (case tm of (h, ms, armed) \<Rightarrow> 0 < ms \<and> armed < t \<and> (t - armed) mod ms = 0)"

definition timerFires :: "nat \<Rightarrow> 'r EventLoop \<Rightarrow> 'r EventLoop" where
  "timerFires t L =
     (if now (engine L) \<le> t \<and> list_ex (due t) (timers (engine L))
      then enterTick (L\<lparr>engine := (engine L)\<lparr>now := t\<rparr>\<rparr>)
      else L)"

text \<open>The cycle bodies that are suspended at time \<open>t\<close>.\<close>

definition outstanding :: "nat \<Rightarrow> 'r EventLoop \<Rightarrow> nat list" where
  "outstanding t L = filter (\<lambda>u. t < u) (suspended L)"

section \<open>The event bus (EventBus)\<close>

text \<open>
  A handler is a function object; the bus tells handlers apart by identity, so a handler
  is a reference here. A \<open>Set\<close> is the list of its elements in insertion order.
\<close>

type_synonym EventHandler = nat

definition set_add :: "'a \<Rightarrow> 'a list \<Rightarrow> 'a list" where
  "set_add x xs = (if x \<in> set xs then xs else xs @ [x])"

definition set_delete :: "'a \<Rightarrow> 'a list \<Rightarrow> 'a list" where
  "set_delete x xs = removeAll x xs"

text \<open>What the closure \<open>unsubscribe\<close> of a subscription has captured.\<close>

datatype Captured = FromType string EventHandler | FromWildcard EventHandler

text \<open>A subscription; the id \<open>sub_n\<close> is its number \<open>n\<close>.\<close>

record Subscription =
  id_sub :: nat
  unsubscribe :: Captured

text \<open>
  The bus: its fields, the calls of handlers so far and the lines written by
  \<open>console.error\<close> (event type and what was caught).
\<close>

record 'p EventBus =
  handlers :: "string \<Rightarrow> EventHandler list option"
  wildcardHandlers :: "EventHandler list"
  subscriptionCounter :: nat
  invoked :: "(EventHandler \<times> 'p AgentEvent) list"
  logged :: "(string \<times> Thrown) list"

definition newEventBus :: "'p EventBus" where
  "newEventBus =
     \<lparr>handlers = (\<lambda>k. None), wildcardHandlers = [], subscriptionCounter = 0,
      invoked = [], logged = []\<rparr>"

definition subscribe :: "string \<Rightarrow> EventHandler \<Rightarrow> 'p EventBus \<Rightarrow> Subscription \<times> 'p EventBus" where
  "subscribe eventType handler b =
     (let b1 = b\<lparr>subscriptionCounter := subscriptionCounter b + 1\<rparr>;
          n = subscriptionCounter b1;
          b2 = (if handlers b1 eventType = None
                then b1\<lparr>handlers := (handlers b1)(eventType \<mapsto> [])\<rparr>
                else b1);
          b3 = (case handlers b2 eventType of
                  Some hs \<Rightarrow> b2\<lparr>handlers := (handlers b2)(eventType \<mapsto> set_add handler hs)\<rparr>
                | None \<Rightarrow> b2)
      in (\<lparr>id_sub = n, unsubscribe = FromType eventType handler\<rparr>, b3))"

definition subscribeAll :: "EventHandler \<Rightarrow> 'p EventBus \<Rightarrow> Subscription \<times> 'p EventBus" where
  "subscribeAll handler b =
     (let b1 = b\<lparr>subscriptionCounter := subscriptionCounter b + 1\<rparr>;
          n = subscriptionCounter b1;
          b2 = b1\<lparr>wildcardHandlers := set_add handler (wildcardHandlers b1)\<rparr>
      in (\<lparr>id_sub = n, unsubscribe = FromWildcard handler\<rparr>, b2))"

text \<open>Calling \<open>subscription.unsubscribe()\<close>.\<close>

definition callUnsubscribe :: "Subscription \<Rightarrow> 'p EventBus \<Rightarrow> 'p EventBus" where
  "callUnsubscribe sub b =
     (case unsubscribe sub of
        FromType eventType handler \<Rightarrow>
          (case handlers b eventType of
             Some hs \<Rightarrow> b\<lparr>handlers := (handlers b)(eventType \<mapsto> set_delete handler hs)\<rparr>
           | None \<Rightarrow> b)
      | FromWildcard handler \<Rightarrow>
          b\<lparr>wildcardHandlers := set_delete handler (wildcardHandlers b)\<rparr>)"

definition clear :: "'p EventBus \<Rightarrow> 'p EventBus" where
  "clear b = b\<lparr>handlers := (\<lambda>k. None), wildcardHandlers := []\<rparr>"

text \<open>
  What a handler does when it is called: the subscriptions it cancels while it runs,
  and how its call ends: it returns (or its promise is fulfilled), it throws, its
  promise is rejected, or its promise never settles.
\<close>

datatype Ending = Returns | Throws Thrown | RejectsLater Thrown | NeverSettles

record Behaviour =
  cancels :: "Subscription list"
  ending :: Ending

text \<open>
  The function mapped over \<open>allHandlers\<close>:
  \<open>async (handler) => { try { await handler(event) } catch (error) { console.error(...) } }\<close>.
  The lines of \<open>console.error\<close> are kept in the order of the handlers; the bus
  writes the line of a rejected promise later than the lines of the handlers that throw,
  and nothing below depends on the order of the lines.
\<close>

definition invokeHandler ::
  "(EventHandler \<Rightarrow> Behaviour) \<Rightarrow> 'p AgentEvent \<Rightarrow> EventHandler \<Rightarrow> 'p EventBus
   \<Rightarrow> unit Outcome \<times> 'p EventBus" where
  "invokeHandler run event handler b =
     (let b1 = b\<lparr>invoked := invoked b @ [(handler, event)]\<rparr>;
          b2 = fold callUnsubscribe (cancels (run handler)) b1
      in case ending (run handler) of
           Returns \<Rightarrow> (Fulfilled (), b2)
         | Throws e \<Rightarrow> (Fulfilled (), b2\<lparr>logged := logged b2 @ [(type_ev event, e)]\<rparr>)
         | RejectsLater e \<Rightarrow> (Fulfilled (), b2\<lparr>logged := logged b2 @ [(type_ev event, e)]\<rparr>)
         | NeverSettles \<Rightarrow> (Pending, b2))"

fun mapHandlers ::
  "(EventHandler \<Rightarrow> Behaviour) \<Rightarrow> 'p AgentEvent \<Rightarrow> EventHandler list \<Rightarrow> 'p EventBus
   \<Rightarrow> unit Outcome list \<times> 'p EventBus" where
  "mapHandlers run event [] b = ([], b)"
| "mapHandlers run event (h # hs) b =
     (case invokeHandler run event h b of (p, b1) \<Rightarrow>
        (case mapHandlers run event hs b1 of (ps, b2) \<Rightarrow> (p # ps, b2)))"

text \<open>\<open>await Promise.all(promises)\<close>: rejected when one of them is, fulfilled when all are.\<close>

fun promiseAll :: "unit Outcome list \<Rightarrow> unit Outcome" where
  "promiseAll [] = Fulfilled ()"
| "promiseAll (p # ps) =
     (case p of
        Rejected e \<Rightarrow> Rejected e
      | Fulfilled u \<Rightarrow> promiseAll ps
      | Pending \<Rightarrow> (case promiseAll ps of Rejected e \<Rightarrow> Rejected e | Fulfilled u \<Rightarrow> Pending | Pending \<Rightarrow> Pending))"

definition emit ::
  "(EventHandler \<Rightarrow> Behaviour) \<Rightarrow> 'p AgentEvent \<Rightarrow> 'p EventBus \<Rightarrow> unit Outcome \<times> 'p EventBus" where
  "emit run event b =
     (let hs = (case handlers b (type_ev event) of Some st \<Rightarrow> st | None \<Rightarrow> []);
          allHandlers = hs @ wildcardHandlers b
      in case mapHandlers run event allHandlers b of
           (promises, b1) \<Rightarrow> (promiseAll promises, b1))"

section \<open>The fleet manager (AgentManager)\<close>

text \<open>
  The registry is a \<open>Map\<close> from agent id to entry, the list of its entries in insertion
  order. An entry holds the engine itself: what a call does to the engine is stored back.
  A \<open>throw\<close> of a synchronous method is a rejected outcome.
\<close>

record 'r ManagedAgent =
  agent :: "'r BaseAgent"
  intervalMs :: "nat option"

record 'r AgentManager =
  agents :: "(string \<times> 'r ManagedAgent) list"

definition newAgentManager :: "'r AgentManager" where
  "newAgentManager = \<lparr>agents = []\<rparr>"

definition getAgentCount :: "'r AgentManager \<Rightarrow> nat" where
  "getAgentCount m = length (agents m)"

definition alreadyRegistered :: "string \<Rightarrow> Thrown" where
  \<open>alreadyRegistered agentId' =
     ThrownError (NewError (''Agent with id "'' @ agentId' @ ''" already registered''))\<close>

definition register :: "'r BaseAgent \<Rightarrow> nat option \<Rightarrow> 'r AgentManager \<Rightarrow> unit Outcome \<times> 'r AgentManager" where
  "register a i m =
     (let cfg = config a
      in if map_of (agents m) (id_cfg cfg) \<noteq> None
         then (Rejected (alreadyRegistered (id_cfg cfg)), m)
         else (Fulfilled (), m\<lparr>agents := agents m @ [(id_cfg cfg, \<lparr>agent = a, intervalMs = i\<rparr>)]\<rparr>))"

text \<open>The engine of entry \<open>agentId\<close> after a call on it.\<close>

definition storeAgent :: "string \<Rightarrow> 'r BaseAgent \<Rightarrow> 'r AgentManager \<Rightarrow> 'r AgentManager" where
  "storeAgent agentId' a m =
     m\<lparr>agents := map (\<lambda>(k, managed). if k = agentId' then (k, managed\<lparr>agent := a\<rparr>) else (k, managed))
                     (agents m)\<rparr>"

definition notFound :: "string \<Rightarrow> Thrown" where
  \<open>notFound agentId' = ThrownError (NewError (''Agent "'' @ agentId' @ ''" not found''))\<close>

definition startAgent :: "string \<Rightarrow> 'r AgentManager \<Rightarrow> unit Outcome \<times> 'r AgentManager" where
  "startAgent agentId' m =
     (case map_of (agents m) agentId' of
        None \<Rightarrow> (Rejected (notFound agentId'), m)
      | Some managed \<Rightarrow>
          (case start (intervalMs managed) (agent managed) of
             (r, a) \<Rightarrow> (r, storeAgent agentId' a m)))"

definition stopAgent :: "string \<Rightarrow> 'r AgentManager \<Rightarrow> unit Outcome \<times> 'r AgentManager" where
  "stopAgent agentId' m =
     (case map_of (agents m) agentId' of
        None \<Rightarrow> (Rejected (notFound agentId'), m)
      | Some managed \<Rightarrow>
          (case stop (agent managed) of (r, a) \<Rightarrow> (r, storeAgent agentId' a m)))"

definition pauseAgent :: "string \<Rightarrow> 'r AgentManager \<Rightarrow> unit Outcome \<times> 'r AgentManager" where
  "pauseAgent agentId' m =
     (case map_of (agents m) agentId' of
        None \<Rightarrow> (Rejected (notFound agentId'), m)
      | Some managed \<Rightarrow>
          (case pause (agent managed) of (r, a) \<Rightarrow> (r, storeAgent agentId' a m)))"

definition resumeAgent :: "string \<Rightarrow> 'r AgentManager \<Rightarrow> unit Outcome \<times> 'r AgentManager" where
  "resumeAgent agentId' m =
     (case map_of (agents m) agentId' of
        None \<Rightarrow> (Rejected (notFound agentId'), m)
      | Some managed \<Rightarrow>
          (case resume (agent managed) of (r, a) \<Rightarrow> (r, storeAgent agentId' a m)))"

section \<open>Vocabulary of the properties\<close>

subsection \<open>The engine\<close>

text \<open>The race of attempt \<open>a\<close>: \<open>this.withTimeout(this.execute(this.context))\<close>, awaited.\<close>

definition attemptRace :: "nat \<Rightarrow> 'r BaseAgent \<Rightarrow> 'r Outcome \<times> 'r BaseAgent" where
  "attemptRace a s = withTimeout (fst (callExecute a s)) (snd (callExecute a s))"

text \<open>The three counters of the metrics agree.\<close>

definition countsAgree :: "AgentMetrics \<Rightarrow> bool" where
  "countsAgree m = (totalExecutions m = successfulExecutions m + failedExecutions m)"

text \<open>
  The durations a history records: the result of the cycle that \<open>tick\<close> runs in a
  state (none when the guard skips it), the result of the cycle of one step, and the
  \<open>executionTimeMs\<close> of the cycles of a history, in order.
\<close>

definition cycleResult :: "'r BaseAgent \<Rightarrow> 'r ExecutionResult option" where
  "cycleResult s =
     (if status s \<noteq> Running \<or> \<not> enabled (config s) then None
      else (case fst (executeWithRetry (s\<lparr>ctx := (ctx s)\<lparr>iteration := iteration (ctx s) + 1\<rparr>\<rparr>)) of
              Fulfilled r \<Rightarrow> Some r
            | Rejected e \<Rightarrow> None
            | Pending \<Rightarrow> None))"

fun stepResult :: "Step \<Rightarrow> 'r BaseAgent \<Rightarrow> 'r ExecutionResult option" where
  "stepResult (Start i) s = (if status s = Running then None else cycleResult (startBeforeTick i s))"
| "stepResult Trigger s = (if timers s = [] then None else cycleResult s)"
| "stepResult Stop s = None"
| "stepResult Pause s = None"
| "stepResult Resume s = None"
| "stepResult (Elapse n) s = None"

fun recorded :: "Step list \<Rightarrow> 'r BaseAgent \<Rightarrow> nat list" where
  "recorded [] s = []"
| "recorded (x # xs) s =
     (case stepResult x s of Some r \<Rightarrow> [executionTimeMs r] | None \<Rightarrow> []) @ recorded xs (step x s)"

text \<open>
  The update of the average the specification gives, \<open>(avg * (n - 1) + d) / n\<close>, with
  the operations on doubles; the average these updates give from 0 for the durations
  \<open>ds\<close>, one after the other (the pair carries the count); and the metrics that hold
  the count of \<open>ds\<close> and that average.
\<close>

definition runningMean :: "JsNumber \<Rightarrow> nat \<Rightarrow> nat \<Rightarrow> JsNumber" where
  "runningMean avg n d = jsDiv (jsAdd (jsMul avg (Num (real n - 1))) (Num (real d))) (Num (real n))"

definition averageStep :: "JsNumber \<times> nat \<Rightarrow> nat \<Rightarrow> JsNumber \<times> nat" where
  "averageStep p d = (runningMean (fst p) (snd p + 1) d, snd p + 1)"

definition averageOf :: "nat list \<Rightarrow> JsNumber" where
  "averageOf ds = fst (foldl averageStep (Num 0, 0) ds)"

definition tracks :: "AgentMetrics \<Rightarrow> nat list \<Rightarrow> bool" where
  "tracks m ds = (totalExecutions m = length ds \<and> averageExecutionTimeMs m = averageOf ds)"

text \<open>The largest relative error of one rounding: half the distance, relative to 1, between
  1 and the next double.\<close>

definition unitRoundoff :: real where
  "unitRoundoff = 1 / 2 ^ 53"


fun backoff :: "nat \<Rightarrow> nat \<Rightarrow> nat \<Rightarrow> 'r Effect list" where
  "backoff r a 0 = []"
| "backoff r a (Suc 0) = [Attempt a]"
| "backoff r a (Suc (Suc k)) = Attempt a # Waited (r * (a + 1)) # backoff r (a + 1) (Suc k)"







definition startEvent :: "'r BaseAgent \<Rightarrow> 'r Payload AgentEvent" where
  "startEvent s =
     createEvent EXECUTION_START (id_cfg (config s)) (IterationPayload (iteration (ctx s))) (now s)"

text \<open>The steps in which nobody calls the engine: periodic triggers and time passing.\<close>

fun isPassive :: "Step \<Rightarrow> bool" where
  "isPassive Trigger = True"
| "isPassive (Elapse n) = True"
| "isPassive (Start i) = False"
| "isPassive Stop = False"
| "isPassive Pause = False"
| "isPassive Resume = False"


subsection \<open>The event loop\<close>

text \<open>How long the race of a work takes.\<close>

definition raceTime :: "AgentConfig \<Rightarrow> 'r Work \<Rightarrow> nat" where
  "raceTime c w =
     (case w of
        Resolves d v \<Rightarrow> min d (timeoutMs c)
      | Rejects d e \<Rightarrow> min d (timeoutMs c)
      | Hangs \<Rightarrow> timeoutMs c)"







text \<open>
  No periodic trigger of engine \<open>s\<close> is due at any time from \<open>u\<close> to \<open>t\<close>. A call
  that is made at \<open>u\<close> and returns at \<open>t\<close> then runs alone on the event loop: no
  callback \<open>() => this.tick()\<close> runs while it is suspended, and what \<open>start\<close> and
  \<open>tick\<close> compute is what the engine does.
\<close>

definition noTriggerDue :: "'r BaseAgent \<Rightarrow> nat \<Rightarrow> nat \<Rightarrow> bool" where
  "noTriggerDue s u t = list_all (\<lambda>v. \<not> list_ex (due v) (timers s)) [u..<Suc t]"

subsection \<open>The event bus\<close>

text \<open>
  The handlers registered for an event type, the handlers \<open>emit\<close> calls for an event
  (its array \<open>allHandlers\<close>), whether what a subscription captured is still registered,
  and a sequence of emissions one after the other.
\<close>

definition handlersFor :: "'p EventBus \<Rightarrow> string \<Rightarrow> EventHandler list" where
  "handlersFor b t = (case handlers b t of Some st \<Rightarrow> st | None \<Rightarrow> [])"

definition allHandlers :: "'p EventBus \<Rightarrow> 'p AgentEvent \<Rightarrow> EventHandler list" where
  "allHandlers b event = handlersFor b (type_ev event) @ wildcardHandlers b"

fun registered :: "Captured \<Rightarrow> 'p EventBus \<Rightarrow> bool" where
  "registered (FromType t h) b = (h \<in> set (handlersFor b t))"
| "registered (FromWildcard h) b = (h \<in> set (wildcardHandlers b))"

fun emitAll :: "(EventHandler \<Rightarrow> Behaviour) \<Rightarrow> 'p AgentEvent list \<Rightarrow> 'p EventBus \<Rightarrow> 'p EventBus" where
  "emitAll run [] b = b"
| "emitAll run (event # events) b = emitAll run events (snd (emit run event b))"

text \<open>From \<open>b\<close> to \<open>b'\<close> no handler was added.\<close>

definition shrinks :: "'p EventBus \<Rightarrow> 'p EventBus \<Rightarrow> bool" where
  "shrinks b b' =
     ((\<forall>t. set (handlersFor b' t) \<subseteq> set (handlersFor b t)) \<and>
      set (wildcardHandlers b') \<subseteq> set (wildcardHandlers b))"

text \<open>Events of type \<open>t\<close> are delivered to handler \<open>h\<close>.\<close>

definition reaches :: "'p EventBus \<Rightarrow> EventHandler \<Rightarrow> string \<Rightarrow> bool" where
  "reaches b h t = (h \<in> set (handlersFor b t) \<or> h \<in> set (wildcardHandlers b))"

text \<open>The lists of a bus are sets: no handler twice.\<close>

definition setsOk :: "'p EventBus \<Rightarrow> bool" where
  "setsOk b = ((\<forall>t. distinct (handlersFor b t)) \<and> distinct (wildcardHandlers b))"

text \<open>How often \<open>emit\<close> calls handler \<open>h\<close> for an event.\<close>

definition deliveries ::
  "(EventHandler \<Rightarrow> Behaviour) \<Rightarrow> 'p AgentEvent \<Rightarrow> 'p EventBus \<Rightarrow> EventHandler \<Rightarrow> nat" where
  "deliveries run event b h =
     count_list (map fst (drop (length (invoked b)) (invoked (snd (emit run event b))))) h"

section \<open>Example inputs\<close>

definition exampleConfig :: AgentConfigInput where
  "exampleConfig =
     \<lparr>id_in = ''a1'', name_in = ''agent'', description_in = None, priority_in = None,
      maxRetries_in = Some 2, retryDelayMs_in = Some 100, timeoutMs_in = Some 50,
      enabled_in = None\<rparr>"

text \<open>Units of work: one that rejects after 5 ms on every call, one whose first call
  never settles and whose later calls resolve after 7 ms, one that needs 100 ms.\<close>

definition alwaysFails :: "nat \<Rightarrow> unit Work" where
  "alwaysFails n = Rejects 5 (ThrownError (NewError ''boom''))"

definition failsOnce :: "nat \<Rightarrow> unit Work" where
  "failsOnce n = (if n = 0 then Hangs else Resolves 7 ())"

definition slowWork :: "nat \<Rightarrow> unit Work" where
  "slowWork n = Resolves 100 ()"

definition failsSecond :: "nat \<Rightarrow> unit Work" where
  "failsSecond n = (if n = 1 then Hangs else Resolves 7 ())"




definition defaultConfig :: AgentConfigInput where
  "defaultConfig =
     \<lparr>id_in = ''a4'', name_in = ''slow'', description_in = None, priority_in = None,
      maxRetries_in = None, retryDelayMs_in = None, timeoutMs_in = None,
      enabled_in = None\<rparr>"

definition slowLoop :: "unit EventLoop" where
  "slowLoop = \<lparr>engine = newBaseAgent defaultConfig slowWork 0, suspended = []\<rparr>"

definition oneAgentFleet :: "unit AgentManager" where
  "oneAgentFleet = snd (register (newBaseAgent exampleConfig failsOnce 0) None newAgentManager)"

text \<open>
  An example bus: handlers 1 and 2 subscribed to events of type x, handler 3 to all
  events. Handler 1 cancels the subscription of handler 2 and throws, handler 3 returns
  a promise that is rejected, every other handler returns.
\<close>

definition exampleBus :: "unit EventBus" where
  "exampleBus =
     snd (subscribeAll 3 (snd (subscribe ''x'' 2 (snd (subscribe ''x'' 1 newEventBus)))))"

definition secondSubscription :: Subscription where
  "secondSubscription = \<lparr>id_sub = 2, unsubscribe = FromType ''x'' 2\<rparr>"

definition exampleRun :: "EventHandler \<Rightarrow> Behaviour" where
  "exampleRun h =
     (if h = 1 then \<lparr>cancels = [secondSubscription], ending = Throws (ThrownOther ''bad'')\<rparr>
      else if h = 3 then \<lparr>cancels = [], ending = RejectsLater (ThrownError (NewError ''late''))\<rparr>
      else \<lparr>cancels = [], ending = Returns\<rparr>)"

definition exampleEvent :: "unit AgentEvent" where
  "exampleEvent = createEvent ''x'' ''a1'' () 0"

text \<open>
  A unit of work whose successive calls resolve after the given milliseconds, and the
  history of an engine that is started with intervalMs 1000 and left alone, so that it
  runs one cycle in every second: after a cycle of \<open>d\<close> ms the trigger next fires
  \<open>1000 - d\<close> ms later.
\<close>

definition timedWork :: "nat list \<Rightarrow> nat \<Rightarrow> unit Work" where
  "timedWork ds n = (if n < length ds then Resolves (ds ! n) () else Hangs)"

definition everySecond :: "nat list \<Rightarrow> Step list" where
  "everySecond ds =
     Start (Some 1000) # concat (map (\<lambda>d. [Elapse (1000 - d), Trigger]) (butlast ds))"

section \<open>Properties of the numbers\<close>

lemma log2floor_bounds: "0 < n \<Longrightarrow> 2 ^ log2floor n \<le> n \<and> n < 2 ^ Suc (log2floor n)"
proof (induction n rule: log2floor.induct)
  case (1 n)
  show ?case
  proof (cases "n < 2")
    case True
    with 1(2) have "n = 1" by simp
    then show ?thesis by (simp add: log2floor.simps)
  next
    case False
    then have "0 < n div 2" by simp
    from 1(1) [OF False this] have a: "2 ^ log2floor (n div 2) \<le> n div 2"
      and b: "n div 2 < 2 ^ Suc (log2floor (n div 2))" by simp_all
    have l: "log2floor n = Suc (log2floor (n div 2))"
      using False by (subst log2floor.simps) simp
    from a have "2 * 2 ^ log2floor (n div 2) \<le> n" by linarith
    moreover from b have "n < 2 * 2 ^ Suc (log2floor (n div 2))" by linarith
    ultimately show ?thesis by (simp add: l)
  qed
qed

lemma exponentOf_bounds:
  assumes "0 < x"
  shows "2 powi (exponentOf x) \<le> x \<and> x < 2 powi (exponentOf x + 1)"
proof (cases "1 \<le> x")
  case True
  define n where "n = nat \<lfloor>x\<rfloor>"
  have n1: "0 < n" using True by (simp add: n_def)
  have nx: "real n \<le> x" "x < real n + 1"
    using True by (simp_all add: n_def)
  have e: "exponentOf x = int (log2floor n)"
    using True by (simp add: exponentOf_def n_def)
  from log2floor_bounds [OF n1] have a: "2 ^ log2floor n \<le> n" and b: "n + 1 \<le> 2 ^ Suc (log2floor n)"
    by simp_all
  from a have "real (2 ^ log2floor n) \<le> real n"
    by (rule of_nat_mono)
  then have A: "(2::real) ^ log2floor n \<le> real n"
    by simp
  from b have "real (n + 1) \<le> real (2 ^ Suc (log2floor n))"
    by (rule of_nat_mono)
  then have B: "real n + 1 \<le> (2::real) ^ Suc (log2floor n)"
    by simp
  have p1: "(2::real) powi (exponentOf x) = 2 ^ log2floor n"
    by (simp add: e)
  have p2: "(2::real) powi (exponentOf x + 1) = 2 ^ Suc (log2floor n)"
    by (simp add: e power_int_add)
  show ?thesis
    unfolding p1 p2 using A B nx by linarith
next
  case False
  define m where "m = nat \<lceil>1 / x\<rceil>"
  from False assms have x1: "1 < 1 / x" by simp
  then have m2: "2 \<le> m" unfolding m_def by linarith
  have mx: "1 / x \<le> real m" "real m - 1 < 1 / x"
    using x1 unfolding m_def by linarith+
  define l where "l = log2floor (m - 1)"
  have e: "exponentOf x = - int (Suc l)"
    using False by (simp add: exponentOf_def m_def l_def)
  from m2 have "0 < m - 1" by simp
  from log2floor_bounds [OF this] have a: "2 ^ l \<le> m - 1" and b0: "m - 1 < 2 ^ Suc l"
    unfolding l_def by simp_all
  from b0 have b: "m \<le> 2 ^ Suc l"
    by linarith
  from a have "real (2 ^ l) \<le> real (m - 1)"
    by (rule of_nat_mono)
  with m2 have "(2::real) ^ l \<le> real m - 1"
    by (simp add: of_nat_diff)
  with mx have lo: "(2::real) ^ l < 1 / x" by simp
  from b have "real m \<le> real (2 ^ Suc l)"
    by (rule of_nat_mono)
  then have "real m \<le> (2::real) ^ Suc l"
    by simp
  with mx have hi: "1 / x \<le> (2::real) ^ Suc l" by simp
  have p: "(0::real) < 2 ^ l" "(0::real) < 2 ^ Suc l" by simp_all
  from hi assms have "1 / 2 ^ Suc l \<le> x"
    by (simp add: field_simps)
  moreover from lo assms have "x < 1 / 2 ^ l"
    by (simp add: field_simps)
  moreover have "(2::real) powi (exponentOf x) = 1 / 2 ^ Suc l"
    unfolding e by (simp only: power_int_minus power_int_of_nat inverse_eq_divide)
  moreover have "(2::real) powi (exponentOf x + 1) = 1 / 2 ^ l"
  proof -
    have "exponentOf x + 1 = - int l"
      by (simp add: e)
    then show ?thesis
      by (simp only: power_int_minus power_int_of_nat inverse_eq_divide)
  qed
  ultimately show ?thesis
    by (simp only:)
qed

lemma roundEven_error: "\<bar>of_int (roundEven y) - y\<bar> \<le> 1 / 2"
proof -
  have "of_int \<lfloor>y\<rfloor> \<le> y" "y < of_int \<lfloor>y\<rfloor> + 1"
    by linarith+
  then show ?thesis
    unfolding roundEven_def Let_def by (simp split: if_splits)
qed

lemma toDouble_zero: "toDouble 0 = Num 0"
  by (simp add: toDouble_def)

lemma toDouble_near:
  assumes x0: "0 < x" and lo: "2 powi (- 1022) \<le> x" and hi: "x < 2 ^ 1023"
  shows "\<exists>y. toDouble x = Num y \<and> x * (1 - 1 / 2 ^ 53) \<le> y \<and> y \<le> x * (1 + 1 / 2 ^ 53)"
proof -
  define e where "e = exponentOf x"
  from exponentOf_bounds [OF x0] have b1: "2 powi e \<le> x" and b2: "x < 2 powi (e + 1)"
    by (simp_all add: e_def)
  have e_lo: "- 1022 \<le> e"
  proof (rule ccontr)
    assume "\<not> - 1022 \<le> e"
    then have "e + 1 \<le> - 1022" by simp
    then have "(2::real) powi (e + 1) \<le> 2 powi (- 1022)"
      by (intro power_int_increasing) simp_all
    with lo b2 show False by linarith
  qed
  define q :: real where "q = 2 powi (e - 52)"
  have q0: "0 < q" by (simp add: q_def)
  have qe: "q * 2 ^ 52 = 2 powi e"
  proof -
    have "(2::real) powi (e - 52) * 2 powi 52 = 2 powi (e - 52 + 52)"
      by (subst power_int_add) simp_all
    then show ?thesis by (simp add: q_def)
  qed
  define r where "r = roundEven (x / q)"
  define y where "y = of_int r * q"
  have "\<bar>of_int r - x / q\<bar> \<le> 1 / 2"
    unfolding r_def by (rule roundEven_error)
  then have "\<bar>of_int r - x / q\<bar> * q \<le> 1 / 2 * q"
    using q0 by (intro mult_right_mono) simp_all
  moreover have "\<bar>of_int r - x / q\<bar> * q = \<bar>y - x\<bar>"
  proof -
    have "\<bar>of_int r - x / q\<bar> * q = \<bar>(of_int r - x / q) * q\<bar>"
      using q0 by (simp add: abs_mult)
    also have "(of_int r - x / q) * q = y - x"
      using q0 by (simp add: y_def field_simps)
    finally show ?thesis .
  qed
  ultimately have d: "\<bar>y - x\<bar> \<le> q / 2" by simp
  have "q / 2 = 2 powi e / 2 ^ 53"
    using qe by (simp add: field_simps)
  also have "\<dots> \<le> x / 2 ^ 53"
    using b1 by (simp add: divide_right_mono)
  finally have "q / 2 \<le> x / 2 ^ 53" .
  with d have d': "\<bar>y - x\<bar> \<le> x / 2 ^ 53" by linarith
  then have "x - x / 2 ^ 53 \<le> y" and "y \<le> x + x / 2 ^ 53"
    by linarith+
  moreover have "x * (1 - 1 / 2 ^ 53) = x - x / 2 ^ 53" "x * (1 + 1 / 2 ^ 53) = x + x / 2 ^ 53"
    by (simp_all only: right_diff_distrib distrib_left mult_1_right times_divide_eq_right)
  ultimately have lo': "x * (1 - 1 / 2 ^ 53) \<le> y" and hi': "y \<le> x * (1 + 1 / 2 ^ 53)"
    by (simp_all only:)
  have e_hi: "e < 1023"
  proof (rule ccontr)
    assume "\<not> e < 1023"
    then have "(2::real) powi 1023 \<le> 2 powi e"
      by (intro power_int_increasing) simp_all
    with b1 hi show False by simp
  qed
  have "toDouble x = Num y"
    using x0 e_lo e_hi
    by (simp add: toDouble_def Let_def e_def [symmetric] max_def q_def [symmetric]
        r_def [symmetric] y_def [symmetric])
  with lo' hi' show ?thesis by blast
qed

lemma u_pos: "0 < unitRoundoff" "unitRoundoff < 1" "0 \<le> unitRoundoff"
  by (simp_all add: unitRoundoff_def)

lemma toDouble_rel:
  assumes "0 \<le> x" and "x = 0 \<or> 2 powi (- 1022) \<le> x" and "x < 2 ^ 1023"
  shows "\<exists>y. toDouble x = Num y \<and> 0 \<le> y \<and> x * (1 - unitRoundoff) \<le> y \<and> y \<le> x * (1 + unitRoundoff)"
proof (cases "x = 0")
  case True
  then show ?thesis by (simp add: toDouble_zero)
next
  case False
  with assms have x0: "0 < x" and lo: "2 powi (- 1022) \<le> x" by simp_all
  from toDouble_near [OF x0 lo assms(3)] obtain y where
    y: "toDouble x = Num y" "x * (1 - unitRoundoff) \<le> y" "y \<le> x * (1 + unitRoundoff)"
    unfolding unitRoundoff_def by blast
  have "0 \<le> x * (1 - unitRoundoff)"
    using x0 u_pos by simp
  with y show ?thesis by (intro exI [of _ y]) simp
qed

lemma pow_up:
  assumes "0 \<le> u" and "real k * u \<le> 1 / 2"
  shows "(1 + u) ^ k \<le> 1 + 2 * real k * u"
  using assms(2)
proof (induction k)
  case 0
  then show ?case by simp
next
  case (Suc k)
  have ku: "real k * u \<le> 1 / 2"
    using Suc.prems assms(1) by (simp add: algebra_simps) 
  from Suc.IH [OF this] have "(1 + u) ^ k * (1 + u) \<le> (1 + 2 * real k * u) * (1 + u)"
    using assms(1) by (intro mult_right_mono) simp_all
  also have "\<dots> = 1 + 2 * real k * u + u + (2 * (real k * u)) * u"
    by (simp add: algebra_simps)
  also have "\<dots> \<le> 1 + 2 * real k * u + u + 1 * u"
    using ku assms(1) by (intro add_left_mono mult_right_mono) simp_all
  also have "\<dots> = 1 + 2 * real (Suc k) * u"
    by (simp add: algebra_simps)
  finally show ?case by (simp add: mult.commute)
qed

lemma pow_down:
  assumes "0 \<le> u" and "u \<le> 1"
  shows "1 - real k * u \<le> (1 - u) ^ k"
  using Bernoulli_inequality [of "- u" k] assms by simp

lemma pow_range:
  assumes "k \<le> 3 * 2 ^ 32"
  shows "1 / 2 \<le> (1 - unitRoundoff) ^ k" and "(1 + unitRoundoff) ^ k \<le> 2"
    and "(1 - unitRoundoff) ^ k \<le> 1" and "1 \<le> (1 + unitRoundoff) ^ k"
proof -
  have "real k \<le> 3 * 2 ^ 32"
    using assms by (metis of_nat_le_iff of_nat_mult of_nat_numeral of_nat_power)
  then have ku: "real k * unitRoundoff \<le> 1 / 2 ^ 19"
    by (simp add: unitRoundoff_def field_simps)
  then have ku2: "real k * unitRoundoff \<le> 1 / 2"
    by simp
  from pow_down [of unitRoundoff k] u_pos ku show "1 / 2 \<le> (1 - unitRoundoff) ^ k"
    by simp
  from pow_up [OF u_pos(3) ku2] ku show "(1 + unitRoundoff) ^ k \<le> 2"
    by simp
  show "(1 - unitRoundoff) ^ k \<le> 1"
    using u_pos by (intro power_le_one) simp_all
  show "1 \<le> (1 + unitRoundoff) ^ k"
    using u_pos by (intro one_le_power) simp_all
qed

lemma tiny: "(2::real) powi (- 1022) \<le> 1 / 2 ^ 40"
proof -
  have "(2::real) powi (- 1022) \<le> 2 powi (- 40)"
    by (intro power_int_increasing) simp_all
  also have "(2::real) powi (- 40) = 1 / 2 ^ 40"
    by (simp add: power_int_minus field_simps)
  finally show ?thesis .
qed

lemma huge: "(2::real) ^ 100 < 2 ^ 1023"
  by (intro power_strict_increasing) simp_all

lemma runningMean_near:
  fixes a :: real and n S d :: nat
  assumes a0: "0 \<le> a"
    and lo: "real S * (1 - unitRoundoff) ^ (3 * n) \<le> a * real n"
    and hi: "a * real n \<le> real S * (1 + unitRoundoff) ^ (3 * n)"
    and n: "n < 2 ^ 32" and S: "S \<le> n * 2 ^ 53" and d: "d < 2 ^ 53"
  shows "\<exists>a'. runningMean (Num a) (Suc n) d = Num a' \<and> 0 \<le> a'
           \<and> real (S + d) * (1 - unitRoundoff) ^ (3 * Suc n) \<le> a' * real (Suc n)
           \<and> a' * real (Suc n) \<le> real (S + d) * (1 + unitRoundoff) ^ (3 * Suc n)"
proof -
  define L where "L = 1 - unitRoundoff"
  define U where "U = 1 + unitRoundoff"
  define V where "V = L ^ (3 * n)"
  define W where "W = U ^ (3 * n)"
  have k: "3 * n \<le> 3 * 2 ^ 32" using n by simp
  have n': "real n < 2 ^ 32"
    using n by (metis of_nat_less_iff of_nat_numeral of_nat_power)
  have d': "real d < 2 ^ 53"
    using d by (metis of_nat_less_iff of_nat_numeral of_nat_power)
  have S': "real S \<le> real n * 2 ^ 53"
    using S by (metis of_nat_le_iff of_nat_mult of_nat_numeral of_nat_power)
  have L: "0 < L" "L \<le> 1" "1 / 2 \<le> L" and U: "1 \<le> U" "U \<le> 2" "0 < U"
    unfolding L_def U_def unitRoundoff_def by simp_all
  have V: "1 / 2 \<le> V" "V \<le> 1" and W: "1 \<le> W" "W \<le> 2"
    unfolding V_def W_def L_def U_def using pow_range [OF k] by simp_all
  have S0: "0 \<le> real S" and d0: "0 \<le> real d" and n0: "0 \<le> real n" by simp_all
  define x1 where "x1 = a * real n"
  have x1_lo: "real S * V \<le> x1" and x1_hi: "x1 \<le> real S * W"
    using lo hi by (simp_all add: x1_def V_def W_def L_def U_def)
  have x1_0: "0 \<le> x1" using a0 by (simp add: x1_def)
  have x1_r: "x1 = 0 \<or> 1 / 2 \<le> x1"
  proof (cases "S = 0")
    case True
    with x1_hi x1_0 show ?thesis by simp
  next
    case False
    then have "1 \<le> real S" by simp
    then have "1 * (1 / 2) \<le> real S * V"
      using V by (intro mult_mono) simp_all
    with x1_lo show ?thesis by simp
  qed
  have "real S * W \<le> (real n * 2 ^ 53) * 2"
    using S' W by (intro mult_mono) simp_all
  also have "\<dots> \<le> (2 ^ 32 * 2 ^ 53) * 2"
    using n' by simp
  finally have x1_b: "x1 \<le> 2 ^ 86"
    using x1_hi by simp
  have "x1 = 0 \<or> 2 powi (- 1022) \<le> x1"
    using x1_r tiny by auto
  moreover have "x1 < 2 ^ 1023"
    using x1_b huge by simp
  ultimately obtain p where p: "toDouble x1 = Num p" "0 \<le> p" "x1 * L \<le> p" "p \<le> x1 * U"
    using toDouble_rel [OF x1_0] unfolding L_def U_def by blast
  define x2 where "x2 = p + real d"
  have x2_0: "0 \<le> x2" using p(2) by (simp add: x2_def)
  have p_r: "p = 0 \<or> 1 / 4 \<le> p"
  proof (cases "x1 = 0")
    case True
    with p(2,4) show ?thesis by simp
  next
    case False
    with x1_r have "1 / 2 \<le> x1" by simp
    then have "(1 / 2) * (1 / 2) \<le> x1 * L"
      using L by (intro mult_mono) simp_all
    with p(3) show ?thesis by simp
  qed
  have x2_r: "x2 = 0 \<or> 1 / 4 \<le> x2"
  proof (cases "d = 0")
    case True
    with p_r show ?thesis by (simp add: x2_def)
  next
    case False
    then have "1 \<le> real d" by simp
    with p(2) show ?thesis by (simp add: x2_def)
  qed
  have "x1 * U \<le> 2 ^ 86 * 2"
    using x1_b U x1_0 by (intro mult_mono) simp_all
  with p(4) d' have x2_b: "x2 \<le> 2 ^ 88"
    by (simp add: x2_def)
  have "x2 = 0 \<or> 2 powi (- 1022) \<le> x2"
    using x2_r tiny by auto
  moreover have "x2 < 2 ^ 1023"
    using x2_b huge by simp
  ultimately obtain s where s: "toDouble x2 = Num s" "0 \<le> s" "x2 * L \<le> s" "s \<le> x2 * U"
    using toDouble_rel [OF x2_0] unfolding L_def U_def by blast
  define x3 where "x3 = s / real (Suc n)"
  have x3_0: "0 \<le> x3" using s(2) by (simp add: x3_def)
  have x3_s: "x3 * real (Suc n) = s" by (simp add: x3_def)
  have s_r: "s = 0 \<or> 1 / 8 \<le> s"
  proof (cases "x2 = 0")
    case True
    with s(2,4) show ?thesis by simp
  next
    case False
    with x2_r have "1 / 4 \<le> x2" by simp
    then have "(1 / 4) * (1 / 2) \<le> x2 * L"
      using L by (intro mult_mono) simp_all
    with s(3) show ?thesis by simp
  qed
  have x3_r: "x3 = 0 \<or> 1 / 2 ^ 40 \<le> x3"
  proof (cases "s = 0")
    case True
    then show ?thesis by (simp add: x3_def)
  next
    case False
    with s_r have s8: "1 / 8 \<le> s" by simp
    have "real (Suc n) \<le> 2 ^ 32"
      using n' by simp
    then have A: "s / 2 ^ 32 \<le> s / real (Suc n)"
      using s(2) by (intro divide_left_mono) simp_all
    have B: "(1 / 8) / 2 ^ 32 \<le> s / 2 ^ 32"
      using s8 by (intro divide_right_mono) simp_all
    have C: "1 / 2 ^ 40 \<le> (1 / 8) / (2::real) ^ 32"
      by simp
    have "1 / 2 ^ 40 \<le> s / real (Suc n)"
      by (rule order_trans [OF C order_trans [OF B A]])
    then show ?thesis unfolding x3_def by (rule disjI2)
  qed
  have "x2 * U \<le> 2 ^ 88 * 2"
    using x2_b U x2_0 by (intro mult_mono) simp_all
  with s(4) have s_b: "s \<le> 2 ^ 89" by simp
  have "s / real (Suc n) \<le> s / 1"
    using s(2) by (intro divide_left_mono) simp_all
  with s_b have x3_b: "x3 \<le> 2 ^ 89" by (simp add: x3_def)
  have "x3 = 0 \<or> 2 powi (- 1022) \<le> x3"
    using x3_r tiny by auto
  moreover have "x3 < 2 ^ 1023"
    using x3_b huge by simp
  ultimately obtain a' where a': "toDouble x3 = Num a'" "0 \<le> a'" "x3 * L \<le> a'" "a' \<le> x3 * U"
    using toDouble_rel [OF x3_0] unfolding L_def U_def by blast
  have c: "runningMean (Num a) (Suc n) d = Num a'"
    using p(1) s(1) a'(1) by (simp add: runningMean_def x1_def x2_def x3_def)
  have "1 * 1 \<le> W * U"
    using W U by (intro mult_mono) simp_all
  then have WU: "1 \<le> W * U" by simp
  have e3: "U ^ (3 * Suc n) = W * (U * U * U)" "L ^ (3 * Suc n) = V * (L * L * L)"
  proof -
    have "3 * Suc n = 3 * n + 3" by simp
    then show "U ^ (3 * Suc n) = W * (U * U * U)" "L ^ (3 * Suc n) = V * (L * L * L)"
      by (simp_all only: power_add power3_eq_cube W_def V_def)
  qed
  have "a' * real (Suc n) \<le> (x3 * U) * real (Suc n)"
    using a'(4) by (intro mult_right_mono) simp_all
  also have "\<dots> = s * U"
    using x3_s by (simp add: mult.commute mult.assoc)
  also have "\<dots> \<le> (x2 * U) * U"
    using s(4) U by (intro mult_right_mono) simp_all
  also have "x2 \<le> real S * W * U + real d * (W * U)"
  proof -
    have "x1 * U \<le> (real S * W) * U"
      using x1_hi U by (intro mult_right_mono) simp_all
    with p(4) have "p \<le> (real S * W) * U"
      by linarith
    moreover have "real d * 1 \<le> real d * (W * U)"
      using WU d0 by (intro mult_left_mono)
    ultimately show ?thesis by (simp add: x2_def)
  qed
  finally have "a' * real (Suc n) \<le> ((real S * W * U + real d * (W * U)) * U) * U"
    using U by (simp add: mult_right_mono)
  also have "\<dots> = real (S + d) * U ^ (3 * Suc n)"
    unfolding e3 by (simp add: algebra_simps)
  finally have up: "a' * real (Suc n) \<le> real (S + d) * U ^ (3 * Suc n)" .
  have "V * L \<le> 1 * 1"
    using V L by (intro mult_mono) simp_all
  then have VL: "V * L \<le> 1" by simp
  have "real S * V * L + real d * (V * L) \<le> x2"
  proof -
    have "(real S * V) * L \<le> x1 * L"
      using x1_lo L by (intro mult_right_mono) simp_all
    with p(3) have "(real S * V) * L \<le> p"
      by linarith
    moreover have "real d * (V * L) \<le> real d * 1"
      using VL d0 by (intro mult_left_mono)
    ultimately show ?thesis by (simp add: x2_def)
  qed
  then have "((real S * V * L + real d * (V * L)) * L) * L \<le> (x2 * L) * L"
    using L by (simp add: mult_right_mono)
  also have "\<dots> \<le> s * L"
    using s(3) L by (intro mult_right_mono) simp_all
  also have "\<dots> = (x3 * L) * real (Suc n)"
    using x3_s by (simp add: mult.commute mult.assoc)
  also have "\<dots> \<le> a' * real (Suc n)"
    using a'(3) by (intro mult_right_mono) simp_all
  finally have "((real S * V * L + real d * (V * L)) * L) * L \<le> a' * real (Suc n)" .
  moreover have "((real S * V * L + real d * (V * L)) * L) * L = real (S + d) * L ^ (3 * Suc n)"
    unfolding e3 by (simp add: algebra_simps)
  ultimately have dn: "real (S + d) * L ^ (3 * Suc n) \<le> a' * real (Suc n)"
    by simp
  show ?thesis
    using c a'(2) up dn unfolding L_def U_def by blast
qed

lemma snd_foldl_averageStep: "snd (foldl averageStep p ds) = snd p + length ds"
  by (induction ds arbitrary: p) (simp_all add: averageStep_def)

lemma averageOf_Nil: "averageOf [] = Num 0"
  by (simp add: averageOf_def)

lemma averageOf_snoc: "averageOf (ds @ [d]) = runningMean (averageOf ds) (Suc (length ds)) d"
  by (simp add: averageOf_def averageStep_def snd_foldl_averageStep)

lemma sum_list_bound: "\<forall>d\<in>set ds. d < b \<Longrightarrow> sum_list ds \<le> length ds * (b::nat)"
  by (induction ds) (auto simp: algebra_simps intro: add_mono less_imp_le)

lemma averageOf_near:
  assumes "length ds < 2 ^ 32" and "\<forall>d\<in>set ds. d < 2 ^ 53"
  shows "\<exists>a. averageOf ds = Num a \<and> 0 \<le> a
           \<and> real (sum_list ds) * (1 - unitRoundoff) ^ (3 * length ds) \<le> a * real (length ds)
           \<and> a * real (length ds) \<le> real (sum_list ds) * (1 + unitRoundoff) ^ (3 * length ds)"
  using assms
proof (induction ds rule: rev_induct)
  case Nil
  then show ?case by (simp add: averageOf_Nil)
next
  case (snoc d ds)
  from snoc.prems have l: "length ds < 2 ^ 32" and b: "\<forall>d\<in>set ds. d < 2 ^ 53" and d: "d < 2 ^ 53"
    by simp_all
  from snoc.IH [OF l b] obtain a where a: "averageOf ds = Num a" "0 \<le> a"
    "real (sum_list ds) * (1 - unitRoundoff) ^ (3 * length ds) \<le> a * real (length ds)"
    "a * real (length ds) \<le> real (sum_list ds) * (1 + unitRoundoff) ^ (3 * length ds)"
    by blast
  from runningMean_near [OF a(2) a(3) a(4) l sum_list_bound [OF b] d] obtain a' where
    "runningMean (Num a) (Suc (length ds)) d = Num a'" "0 \<le> a'"
    "real (sum_list ds + d) * (1 - unitRoundoff) ^ (3 * Suc (length ds)) \<le> a' * real (Suc (length ds))"
    "a' * real (Suc (length ds)) \<le> real (sum_list ds + d) * (1 + unitRoundoff) ^ (3 * Suc (length ds))"
    by blast
  then show ?case
    by (intro exI [of _ a']) (simp add: averageOf_snoc a(1))
qed

lemma averageOf_error:
  assumes ne: "ds \<noteq> []" and l: "length ds < 2 ^ 32" and b: "\<forall>d\<in>set ds. d < 2 ^ 53"
  shows "\<exists>a. averageOf ds = Num a \<and>
           \<bar>a - real (sum_list ds) / real (length ds)\<bar>
             \<le> real (sum_list ds) / real (length ds) * (6 * real (length ds) * unitRoundoff)"
proof -
  define n where "n = real (length ds)"
  define m where "m = real (sum_list ds) / n"
  define k where "k = 3 * length ds"
  from ne have n0: "0 < n" by (simp add: n_def)
  have m0: "0 \<le> m" using n0 by (simp add: m_def)
  have S: "real (sum_list ds) = m * n" using n0 by (simp add: m_def)
  from averageOf_near [OF l b] obtain a where a: "averageOf ds = Num a"
    and lo: "m * n * (1 - unitRoundoff) ^ k \<le> a * n"
    and hi: "a * n \<le> m * n * (1 + unitRoundoff) ^ k"
    unfolding S n_def [symmetric] k_def [symmetric] by blast
  have "(m * (1 - unitRoundoff) ^ k) * n \<le> a * n"
    using lo by (simp add: mult.commute mult.left_commute)
  then have lo': "m * (1 - unitRoundoff) ^ k \<le> a"
    using n0 by (simp only: mult_le_cancel_right_pos)
  have "a * n \<le> (m * (1 + unitRoundoff) ^ k) * n"
    using hi by (simp add: mult.commute mult.left_commute)
  then have hi': "a \<le> m * (1 + unitRoundoff) ^ k"
    using n0 by (simp only: mult_le_cancel_right_pos)
  have kn: "real k = 3 * n" by (simp add: k_def n_def)
  have "k \<le> 3 * 2 ^ 32" using l by (simp add: k_def)
  then have "real k \<le> 3 * 2 ^ 32"
    by (metis of_nat_le_iff of_nat_mult of_nat_numeral of_nat_power)
  then have ku: "real k * unitRoundoff \<le> 1 / 2"
    by (simp add: unitRoundoff_def field_simps)
  have up: "(1 + unitRoundoff) ^ k \<le> 1 + 2 * real k * unitRoundoff"
    by (rule pow_up [OF u_pos(3) ku])
  have dn: "1 - real k * unitRoundoff \<le> (1 - unitRoundoff) ^ k"
    using u_pos by (intro pow_down) simp_all
  have "m * (1 + unitRoundoff) ^ k \<le> m * (1 + 2 * real k * unitRoundoff)"
    using up m0 by (rule mult_left_mono)
  with hi' have h: "a \<le> m + m * (6 * n * unitRoundoff)"
    by (simp add: kn algebra_simps)
  have "m * (1 - real k * unitRoundoff) \<le> m * (1 - unitRoundoff) ^ k"
    using dn m0 by (rule mult_left_mono)
  with lo' have g: "m - m * (3 * n * unitRoundoff) \<le> a"
    by (simp add: kn algebra_simps)
  have "m * (3 * n * unitRoundoff) \<le> m * (6 * n * unitRoundoff)"
    using m0 n0 u_pos by (intro mult_left_mono) simp_all
  with g h have "\<bar>a - m\<bar> \<le> m * (6 * n * unitRoundoff)"
    by linarith
  with a show ?thesis
    unfolding m_def n_def by blast
qed

section \<open>Properties of the engine\<close>

lemma withTimeout_not_Pending: "fst (withTimeout p s) \<noteq> Pending"
  by (simp add: withTimeout_def Let_def split: Work.splits)

lemma attemptRace_not_Pending: "attemptRace a s \<noteq> (Pending, s2)"
  using withTimeout_not_Pending [of "fst (callExecute a s)" "snd (callExecute a s)"]
  by (auto simp: attemptRace_def)

lemma await_Fulfilled: "fst p = Fulfilled v \<Longrightarrow> await p k = k v (snd p)"
  by (cases p) (simp add: await_def)

lemma fst_catchBlock: "fst (catchBlock a thrown s) = toError thrown"
  by (simp add: catchBlock_def Let_def)

lemma retryLoop_exhausted:
  "\<not> a < maxRetries (config s) \<Longrightarrow> retryLoop t a e s = terminalFailure t e s"
  by (subst retryLoop.simps) simp

lemma retryLoop_success:
  "a < maxRetries (config s) \<Longrightarrow> fst (attemptRace a s) = Fulfilled d \<Longrightarrow>
   retryLoop t a e s =
     (Fulfilled \<lparr>success = True, data = Some d, error = None,
                 executionTimeMs = now (snd (attemptRace a s)) - t,
                 timestamp = now (snd (attemptRace a s))\<rparr>,
      eventBus_emit (createEvent EXECUTION_COMPLETE (id_cfg (config (snd (attemptRace a s))))
                       (CompletePayload d (now (snd (attemptRace a s)) - t))
                       (now (snd (attemptRace a s)))) (snd (attemptRace a s)))"
  by (subst retryLoop.simps)
     (cases "callExecute a s", cases "attemptRace a s",
      simp add: attemptRace_def Let_def eventBus_emit_def)

lemma retryLoop_failure:
  "a < maxRetries (config s) \<Longrightarrow> fst (attemptRace a s) = Rejected thrown \<Longrightarrow>
   retryLoop t a e s =
     retryLoop t (a + 1) (Some (toError thrown)) (snd (catchBlock a thrown (snd (attemptRace a s))))"
  by (subst retryLoop.simps)
     (cases "callExecute a s", cases "attemptRace a s",
      cases "catchBlock a thrown (snd (attemptRace a s))",
      simp add: attemptRace_def catchBlock_def Let_def)

lemma retryLoop_cases_induct [case_names exhausted success failure]:
  fixes P :: "nat \<Rightarrow> nat \<Rightarrow> JsError option \<Rightarrow> 'r BaseAgent \<Rightarrow> bool"
  assumes ex: "\<And>t a e s. \<not> a < maxRetries (config s) \<Longrightarrow> P t a e s"
    and su: "\<And>t a e s d. a < maxRetries (config s) \<Longrightarrow>
               fst (attemptRace a s) = Fulfilled d \<Longrightarrow> P t a e s"
    and fa: "\<And>t a e s thrown. a < maxRetries (config s) \<Longrightarrow>
               fst (attemptRace a s) = Rejected thrown \<Longrightarrow>
               P t (a + 1) (Some (toError thrown))
                 (snd (catchBlock a thrown (snd (attemptRace a s)))) \<Longrightarrow>
               P t a e s"
  shows "P t a e s"
proof (induction t a e s rule: retryLoop.induct)
  case (1 t a e s)
  show ?case
  proof (cases "a < maxRetries (config s)")
    case False
    then show ?thesis by (rule ex)
  next
    case True
    obtain out s2 where r: "attemptRace a s = (out, s2)"
      by (cases "attemptRace a s")
    show ?thesis
    proof (cases out)
      case (Fulfilled d)
      with True r show ?thesis by (auto intro: su)
    next
      case (Rejected thrown)
      obtain p s1 where c: "callExecute a s = (p, s1)"
        by (cases "callExecute a s")
      from r c have w: "withTimeout p s1 = (out, s2)"
        by (simp add: attemptRace_def)
      obtain e' s3 where k: "catchBlock a thrown s2 = (e', s3)"
        by (cases "catchBlock a thrown s2")
      have e': "e' = toError thrown"
        using k fst_catchBlock [of a thrown s2] by simp
      have "P t (a + 1) (Some e') s3"
        by (rule "1.IH" [OF True c [symmetric] w [symmetric] Rejected k [symmetric]])
      with k e' r have "P t (a + 1) (Some (toError thrown))
                        (snd (catchBlock a thrown (snd (attemptRace a s))))"
        by simp
      with True r Rejected show ?thesis by (auto intro: fa)
    next
      case Pending
      with r attemptRace_not_Pending show ?thesis by blast
    qed
  qed
qed

lemma attemptRace_fields:
  "config (snd (attemptRace a s)) = config s"
  "metrics (snd (attemptRace a s)) = metrics s"
  "status (snd (attemptRace a s)) = status s"
  "ctx (snd (attemptRace a s)) = ctx s"
  "execute (snd (attemptRace a s)) = execute s"
  "execCalls (snd (attemptRace a s)) = Suc (execCalls s)"
  "effects (snd (attemptRace a s)) = effects s @ [Attempt a]"
  "startTime (snd (attemptRace a s)) = startTime s"
  by (simp_all add: attemptRace_def callExecute_def withTimeout_def Let_def split: Work.splits)

lemma catchBlock_fields:
  "config (snd (catchBlock a thrown s)) = config s"
  "metrics (snd (catchBlock a thrown s)) = metrics s"
  "status (snd (catchBlock a thrown s)) = status s"
  "ctx (snd (catchBlock a thrown s)) = (ctx s)\<lparr>lastError := Some (toError thrown)\<rparr>"
  "execute (snd (catchBlock a thrown s)) = execute s"
  "execCalls (snd (catchBlock a thrown s)) = execCalls s"
  "effects (snd (catchBlock a thrown s)) =
     effects s @ (if Suc a < maxRetries (config s)
                  then [Waited (retryDelayMs (config s) * (a + 1))] else [])"
  "startTime (snd (catchBlock a thrown s)) = startTime s"
  by (auto simp add: catchBlock_def delay_def Let_def)

lemma terminalFailure_fields:
  "config (snd (terminalFailure t e s)) = config s"
  "metrics (snd (terminalFailure t e s)) = metrics s"
  "status (snd (terminalFailure t e s)) = Error"
  "ctx (snd (terminalFailure t e s)) = ctx s"
  "startTime (snd (terminalFailure t e s)) = startTime s"
  by (simp_all add: terminalFailure_def onError_def eventBus_emit_def Let_def)

lemma retryLoop_metrics: "metrics (snd (retryLoop t a e s)) = metrics s"
proof (induction t a e s rule: retryLoop_cases_induct)
  case (exhausted t a e s)
  then show ?case by (simp add: retryLoop_exhausted terminalFailure_fields)
next
  case (success t a e s d)
  then show ?case by (simp add: retryLoop_success eventBus_emit_def attemptRace_fields)
next
  case (failure t a e s thrown)
  then show ?case by (simp add: retryLoop_failure attemptRace_fields catchBlock_fields)
qed

lemma retryLoop_returns: "\<exists>r. fst (retryLoop t a e s) = Fulfilled r"
proof (induction t a e s rule: retryLoop_cases_induct)
  case (exhausted t a e s)
  then show ?case by (simp add: retryLoop_exhausted terminalFailure_def Let_def)
next
  case (success t a e s d)
  then show ?case by (simp add: retryLoop_success)
next
  case (failure t a e s thrown)
  then show ?case by (simp add: retryLoop_failure)
qed

lemma countsAgree_updateMetrics:
  "countsAgree (metrics s) \<Longrightarrow> countsAgree (metrics (updateMetrics r s))"
  by (simp add: countsAgree_def updateMetrics_def Let_def split: option.splits)

lemma executeWithRetry_metrics: "metrics (snd (executeWithRetry s)) = metrics s"
  by (simp add: executeWithRetry_def Let_def retryLoop_metrics eventBus_emit_def)

lemma executeWithRetry_returns: "\<exists>r. fst (executeWithRetry s) = Fulfilled r"
  by (simp add: executeWithRetry_def Let_def retryLoop_returns)

lemma tick_eligible:
  "status s = Running \<Longrightarrow> enabled (config s) \<Longrightarrow>
   \<exists>r. fst (executeWithRetry (s\<lparr>ctx := (ctx s)\<lparr>iteration := iteration (ctx s) + 1\<rparr>\<rparr>)) = Fulfilled r \<and>
     tick s =
     (let s2 = snd (executeWithRetry (s\<lparr>ctx := (ctx s)\<lparr>iteration := iteration (ctx s) + 1\<rparr>\<rparr>));
          s3 = updateMetrics r s2
      in (Fulfilled (),
          eventBus_emit (createEvent METRICS_UPDATED (id_cfg (config s3))
                           (MetricsPayload (metrics s3)) (now s3)) s3))"
proof -
  assume a: "status s = Running" "enabled (config s)"
  let ?s1 = "s\<lparr>ctx := (ctx s)\<lparr>iteration := iteration (ctx s) + 1\<rparr>\<rparr>"
  obtain r where r: "fst (executeWithRetry ?s1) = Fulfilled r"
    using executeWithRetry_returns by blast
  with a show ?thesis
    by (auto simp: tick_def await_Fulfilled Let_def)
qed

lemma countsAgree_tick: "countsAgree (metrics s) \<Longrightarrow> countsAgree (metrics (snd (tick s)))"
proof (cases "status s = Running \<and> enabled (config s)")
  case False
  assume "countsAgree (metrics s)"
  with False show ?thesis by (auto simp: tick_def)
next
  case True
  assume c: "countsAgree (metrics s)"
  from True obtain r where
    "tick s =
     (let s2 = snd (executeWithRetry (s\<lparr>ctx := (ctx s)\<lparr>iteration := iteration (ctx s) + 1\<rparr>\<rparr>));
          s3 = updateMetrics r s2
      in (Fulfilled (),
          eventBus_emit (createEvent METRICS_UPDATED (id_cfg (config s3))
                           (MetricsPayload (metrics s3)) (now s3)) s3))"
    using tick_eligible [of s] by blast
  then show ?thesis
    using c countsAgree_updateMetrics [of "snd (executeWithRetry (s\<lparr>ctx := (ctx s)\<lparr>iteration := iteration (ctx s) + 1\<rparr>\<rparr>))" r]
    by (simp add: Let_def eventBus_emit_def executeWithRetry_metrics)
qed

lemma metrics_startBeforeTick: "metrics (startBeforeTick i s) = metrics s"
  by (simp add: startBeforeTick_def Let_def onStart_def eventBus_emit_def setInterval_def
      split: option.splits)

lemma countsAgree_step: "countsAgree (metrics s) \<Longrightarrow> countsAgree (metrics (step x s))"
  by (cases x)
     (auto simp: start_def stop_def pause_def resume_def Let_def onStop_def onPause_def
        onResume_def eventBus_emit_def clearInterval_def metrics_startBeforeTick
        intro: countsAgree_tick split: option.splits)

lemma countsAgree_steps: "countsAgree (metrics s) \<Longrightarrow> countsAgree (metrics (steps xs s))"
  by (induction xs arbitrary: s) (auto intro: countsAgree_step)

text \<open>
  C1. For every configuration, every unit of work and every history of the engine
  (calls of start, stop, pause and resume, periodic triggers, time passing, each cycle
  ending in success or in terminal failure), the metrics satisfy
  totalExecutions = successfulExecutions + failedExecutions.
\<close>

theorem C1_counts_invariant:
  "totalExecutions (metrics (steps xs (newBaseAgent c exec t))) =
   successfulExecutions (metrics (steps xs (newBaseAgent c exec t))) +
   failedExecutions (metrics (steps xs (newBaseAgent c exec t)))"
proof -
  have "countsAgree (metrics (newBaseAgent c exec t))"
    by (simp add: countsAgree_def newBaseAgent_def)
  then have "countsAgree (metrics (steps xs (newBaseAgent c exec t)))"
    by (rule countsAgree_steps)
  then show ?thesis by (simp add: countsAgree_def)
qed

text \<open>Two starts of an engine whose work always fails: two cycles, both failed.\<close>

theorem C1_counts_invariant_witness:
  "totalExecutions (metrics (steps [Start None, Elapse 10, Start None]
      (newBaseAgent exampleConfig alwaysFails 0))) =
   successfulExecutions (metrics (steps [Start None, Elapse 10, Start None]
      (newBaseAgent exampleConfig alwaysFails 0))) +
   failedExecutions (metrics (steps [Start None, Elapse 10, Start None]
      (newBaseAgent exampleConfig alwaysFails 0)))
   \<and> failedExecutions (metrics (steps [Start None, Elapse 10, Start None]
      (newBaseAgent exampleConfig alwaysFails 0))) = 2"
proof -
  have "failedExecutions (metrics (steps [Start None, Elapse 10, Start None]
      (newBaseAgent exampleConfig alwaysFails 0))) = 2"
    by code_simp
  with C1_counts_invariant [of "[Start None, Elapse 10, Start None]" exampleConfig alwaysFails 0]
  show ?thesis by blast
qed

subsection \<open>The running mean\<close>

lemma updateMetrics_average:
  "averageExecutionTimeMs (metrics (updateMetrics r s)) =
     jsDiv (jsAdd (jsMul (averageExecutionTimeMs (metrics s))
                     (Num (real (totalExecutions (metrics (updateMetrics r s))) - 1)))
              (Num (real (executionTimeMs r))))
       (Num (real (totalExecutions (metrics (updateMetrics r s)))))"
  by (simp add: updateMetrics_def Let_def split: option.splits)

lemma updateMetrics_total:
  "totalExecutions (metrics (updateMetrics r s)) = totalExecutions (metrics s) + 1"
  by (simp add: updateMetrics_def Let_def split: option.splits)

lemma tracks_updateMetrics:
  assumes "tracks (metrics s) ds"
  shows "tracks (metrics (updateMetrics r s)) (ds @ [executionTimeMs r])"
proof -
  have t: "totalExecutions (metrics (updateMetrics r s)) = Suc (length ds)"
    using assms by (simp add: updateMetrics_total tracks_def)
  have "averageExecutionTimeMs (metrics (updateMetrics r s)) =
          runningMean (averageOf ds) (Suc (length ds)) (executionTimeMs r)"
    using updateMetrics_average [of r s] assms unfolding t by (simp add: tracks_def runningMean_def)
  with t show ?thesis
    by (simp add: tracks_def averageOf_snoc)
qed

lemma tracks_tick:
  assumes "tracks (metrics s) ds"
  shows "tracks (metrics (snd (tick s)))
           (ds @ (case cycleResult s of Some r \<Rightarrow> [executionTimeMs r] | None \<Rightarrow> []))"
proof (cases "status s = Running \<and> enabled (config s)")
  case False
  with assms show ?thesis by (auto simp: tick_def cycleResult_def)
next
  case True
  let ?s1 = "s\<lparr>ctx := (ctx s)\<lparr>iteration := iteration (ctx s) + 1\<rparr>\<rparr>"
  from True obtain r where r: "fst (executeWithRetry ?s1) = Fulfilled r"
    and t: "tick s =
     (let s2 = snd (executeWithRetry ?s1); s3 = updateMetrics r s2
      in (Fulfilled (),
          eventBus_emit (createEvent METRICS_UPDATED (id_cfg (config s3))
                           (MetricsPayload (metrics s3)) (now s3)) s3))"
    using tick_eligible [of s] by blast
  have c: "cycleResult s = Some r"
    using True r by (simp add: cycleResult_def)
  have "tracks (metrics (snd (executeWithRetry ?s1))) ds"
    using assms by (simp add: executeWithRetry_metrics)
  then have "tracks (metrics (updateMetrics r (snd (executeWithRetry ?s1)))) (ds @ [executionTimeMs r])"
    by (rule tracks_updateMetrics)
  with t c show ?thesis
    by (simp add: Let_def eventBus_emit_def)
qed

lemma tracks_step:
  assumes "tracks (metrics s) ds"
  shows "tracks (metrics (step x s))
           (ds @ (case stepResult x s of Some r \<Rightarrow> [executionTimeMs r] | None \<Rightarrow> []))"
proof (cases x)
  case (Start i)
  show ?thesis
  proof (cases "status s = Running")
    case True
    with Start assms show ?thesis by (simp add: start_def)
  next
    case False
    have "tracks (metrics (startBeforeTick i s)) ds"
      using assms by (simp add: metrics_startBeforeTick)
    from tracks_tick [OF this] False Start show ?thesis
      by (simp add: start_def)
  qed
next
  case Trigger
  with assms tracks_tick [OF assms] show ?thesis by simp
next
  case Stop
  with assms show ?thesis
    by (simp add: stop_def Let_def onStop_def eventBus_emit_def clearInterval_def split: option.splits)
next
  case Pause
  with assms show ?thesis
    by (simp add: pause_def Let_def onPause_def eventBus_emit_def)
next
  case Resume
  with assms show ?thesis
    by (simp add: resume_def Let_def onResume_def eventBus_emit_def)
next
  case (Elapse n)
  with assms show ?thesis by simp
qed

lemma tracks_steps:
  "tracks (metrics s) ds \<Longrightarrow> tracks (metrics (steps xs s)) (ds @ recorded xs s)"
proof (induction xs arbitrary: s ds)
  case Nil
  then show ?case by simp
next
  case (Cons x xs)
  from Cons.IH [OF tracks_step [OF Cons.prems, of x]] show ?case by simp
qed

lemma tracks_new: "tracks (metrics (steps xs (newBaseAgent c exec t))) (recorded xs (newBaseAgent c exec t))"
proof -
  have "tracks (metrics (newBaseAgent c exec t)) []"
    by (simp add: tracks_def newBaseAgent_def averageOf_Nil)
  from tracks_steps [OF this] show ?thesis by simp
qed

lemma averageOf_forward:
  "averageOf [5, 7, 1, 8, 2, 2, 4, 1] = Num (8444249301319681 / 2251799813685248)"
  by (simp add: averageOf_def averageStep_def runningMean_def toDouble_def exponentOf_def
      roundEven_def log2floor.simps Let_def)

lemma averageOf_backward: "averageOf [1, 4, 2, 2, 8, 1, 7, 5] = Num (15 / 4)"
  by (simp add: averageOf_def averageStep_def runningMean_def toDouble_def exponentOf_def
      roundEven_def log2floor.simps Let_def)

lemmas engine_defs =
  everySecond_def timedWork_def newBaseAgent_def resolveConfig_def exampleConfig_def
  cycleResult_def start_def startBeforeTick_def setInterval_def onStart_def eventBus_emit_def
  createEvent_def tick_def await_def executeWithRetry_def retryLoop.simps callExecute_def
  withTimeout_def updateMetrics_def Let_def

lemma recorded_forward:
  "recorded (everySecond [5, 7, 1, 8, 2, 2, 4, 1])
     (newBaseAgent exampleConfig (timedWork [5, 7, 1, 8, 2, 2, 4, 1]) 0) = [5, 7, 1, 8, 2, 2, 4, 1]"
  by (simp add: engine_defs)

lemma recorded_backward:
  "recorded (everySecond [1, 4, 2, 2, 8, 1, 7, 5])
     (newBaseAgent exampleConfig (timedWork [1, 4, 2, 2, 8, 1, 7, 5]) 0) = [1, 4, 2, 2, 8, 1, 7, 5]"
  by (simp add: engine_defs)

text \<open>
  C2 as stated fails. The three operations of the update are operations on doubles, and
  each rounds its result. An engine (timeoutMs 50) is started with intervalMs 1000 and
  runs eight cycles, one in every second, that record 5, 7, 1, 8, 2, 2, 4 and 1 ms. Their
  mean is 3.75, which is a double, but averageExecutionTimeMs ends as
  8444249301319681 / 2^51 = 3.7500000000000004. An engine that records the same
  durations in the reverse order ends with 3.75: the average depends on the order.
\<close>

theorem C2_running_mean_counterexample:
  "recorded (everySecond [5, 7, 1, 8, 2, 2, 4, 1])
     (newBaseAgent exampleConfig (timedWork [5, 7, 1, 8, 2, 2, 4, 1]) 0) = [5, 7, 1, 8, 2, 2, 4, 1]
   \<and> real (sum_list [5, 7, 1, 8, 2, 2, 4, 1]) / real (length [5, 7, 1, 8, 2, 2, 4, 1 :: nat]) = 15 / 4
   \<and> averageExecutionTimeMs (metrics (steps (everySecond [5, 7, 1, 8, 2, 2, 4, 1])
         (newBaseAgent exampleConfig (timedWork [5, 7, 1, 8, 2, 2, 4, 1]) 0))) =
       Num (8444249301319681 / 2251799813685248)
   \<and> averageExecutionTimeMs (metrics (steps (everySecond [5, 7, 1, 8, 2, 2, 4, 1])
         (newBaseAgent exampleConfig (timedWork [5, 7, 1, 8, 2, 2, 4, 1]) 0))) \<noteq> Num (15 / 4)
   \<and> rev [5, 7, 1, 8, 2, 2, 4, 1 :: nat] = [1, 4, 2, 2, 8, 1, 7, 5]
   \<and> recorded (everySecond [1, 4, 2, 2, 8, 1, 7, 5])
         (newBaseAgent exampleConfig (timedWork [1, 4, 2, 2, 8, 1, 7, 5]) 0) = [1, 4, 2, 2, 8, 1, 7, 5]
   \<and> averageExecutionTimeMs (metrics (steps (everySecond [1, 4, 2, 2, 8, 1, 7, 5])
         (newBaseAgent exampleConfig (timedWork [1, 4, 2, 2, 8, 1, 7, 5]) 0))) = Num (15 / 4)"
proof -
  have f: "averageExecutionTimeMs (metrics (steps (everySecond [5, 7, 1, 8, 2, 2, 4, 1])
         (newBaseAgent exampleConfig (timedWork [5, 7, 1, 8, 2, 2, 4, 1]) 0))) =
       Num (8444249301319681 / 2251799813685248)"
    using tracks_new [of "everySecond [5, 7, 1, 8, 2, 2, 4, 1]" exampleConfig
        "timedWork [5, 7, 1, 8, 2, 2, 4, 1]" 0]
    by (simp only: tracks_def recorded_forward averageOf_forward)
  have b: "averageExecutionTimeMs (metrics (steps (everySecond [1, 4, 2, 2, 8, 1, 7, 5])
         (newBaseAgent exampleConfig (timedWork [1, 4, 2, 2, 8, 1, 7, 5]) 0))) = Num (15 / 4)"
    using tracks_new [of "everySecond [1, 4, 2, 2, 8, 1, 7, 5]" exampleConfig
        "timedWork [1, 4, 2, 2, 8, 1, 7, 5]" 0]
    by (simp only: tracks_def recorded_backward averageOf_backward)
  have n: "Num (8444249301319681 / 2251799813685248) \<noteq> Num (15 / 4)"
    by simp
  have m: "real (sum_list [5, 7, 1, 8, 2, 2, 4, 1]) / real (length [5, 7, 1, 8, 2, 2, 4, 1 :: nat]) = 15 / 4"
    by simp
  have r: "rev [5, 7, 1, 8, 2, 2, 4, 1 :: nat] = [1, 4, 2, 2, 8, 1, 7, 5]"
    by simp
  show ?thesis
    using recorded_forward recorded_backward f b n m r by (simp only:) simp
qed

text \<open>
  C2, amended. updateMetrics sets averageExecutionTimeMs to
  (oldAverage * (n - 1) + newDuration) / n, where n is totalExecutions after its increment
  and each of the three operations rounds its result to the nearest double. After every
  history of an engine from its construction, totalExecutions is the number N of cycles
  run and averageExecutionTimeMs is what these updates give, starting from 0, for the
  durations the cycles recorded, in the order of the cycles; it is 0 when N = 0. When
  N < 2^32 and every recorded duration is below 2^53 ms, averageExecutionTimeMs is a
  finite number whose distance from the arithmetic mean (d1 + ... + dN) / N is at most
  the mean times 6 * N * 2^-53. It need not be equal to the mean, and it depends on the
  order of the durations.
\<close>

theorem C2_running_mean:
  "averageExecutionTimeMs (metrics (updateMetrics r s)) =
     jsDiv (jsAdd (jsMul (averageExecutionTimeMs (metrics s))
                     (Num (real (totalExecutions (metrics (updateMetrics r s))) - 1)))
              (Num (real (executionTimeMs r))))
       (Num (real (totalExecutions (metrics (updateMetrics r s)))))
   \<and> totalExecutions (metrics (updateMetrics r s)) = totalExecutions (metrics s) + 1
   \<and> totalExecutions (metrics (steps xs (newBaseAgent c exec t))) =
       length (recorded xs (newBaseAgent c exec t))
   \<and> averageExecutionTimeMs (metrics (steps xs (newBaseAgent c exec t))) =
       averageOf (recorded xs (newBaseAgent c exec t))
   \<and> (recorded xs (newBaseAgent c exec t) = [] \<longrightarrow>
        averageExecutionTimeMs (metrics (steps xs (newBaseAgent c exec t))) = Num 0)
   \<and> (recorded xs (newBaseAgent c exec t) \<noteq> []
        \<and> length (recorded xs (newBaseAgent c exec t)) < 2 ^ 32
        \<and> (\<forall>d\<in>set (recorded xs (newBaseAgent c exec t)). d < 2 ^ 53) \<longrightarrow>
        (\<exists>a. averageExecutionTimeMs (metrics (steps xs (newBaseAgent c exec t))) = Num a
           \<and> \<bar>a - real (sum_list (recorded xs (newBaseAgent c exec t)))
                    / real (length (recorded xs (newBaseAgent c exec t)))\<bar>
               \<le> real (sum_list (recorded xs (newBaseAgent c exec t)))
                    / real (length (recorded xs (newBaseAgent c exec t)))
                  * (6 * real (length (recorded xs (newBaseAgent c exec t))) * unitRoundoff)))"
proof -
  define ds where "ds = recorded xs (newBaseAgent c exec t)"
  define m where "m = metrics (steps xs (newBaseAgent c exec t))"
  have tr: "totalExecutions m = length ds" "averageExecutionTimeMs m = averageOf ds"
    using tracks_new [of xs c exec t] by (simp_all add: tracks_def ds_def m_def)
  have z: "ds = [] \<longrightarrow> averageExecutionTimeMs m = Num 0"
    using tr(2) by (simp add: averageOf_Nil)
  have e: "ds \<noteq> [] \<and> length ds < 2 ^ 32 \<and> (\<forall>d\<in>set ds. d < 2 ^ 53) \<longrightarrow>
        (\<exists>a. averageExecutionTimeMs m = Num a
           \<and> \<bar>a - real (sum_list ds) / real (length ds)\<bar>
               \<le> real (sum_list ds) / real (length ds) * (6 * real (length ds) * unitRoundoff))"
    unfolding tr(2) by (intro impI averageOf_error) simp_all
  show ?thesis
    using updateMetrics_average [of r s] updateMetrics_total [of r s] tr z e
    unfolding ds_def m_def by (intro conjI) assumption+
qed

text \<open>
  The engine of the counterexample: eight cycles, durations below 2^53, mean 3.75. Its
  average 3.7500000000000004 is within 3.75 * 48 * 2^-53 of the mean.
\<close>

theorem C2_running_mean_witness:
  "recorded (everySecond [5, 7, 1, 8, 2, 2, 4, 1])
     (newBaseAgent exampleConfig (timedWork [5, 7, 1, 8, 2, 2, 4, 1]) 0) \<noteq> []
   \<and> length (recorded (everySecond [5, 7, 1, 8, 2, 2, 4, 1])
        (newBaseAgent exampleConfig (timedWork [5, 7, 1, 8, 2, 2, 4, 1]) 0)) < 2 ^ 32
   \<and> list_all (\<lambda>d. d < 2 ^ 53) (recorded (everySecond [5, 7, 1, 8, 2, 2, 4, 1])
        (newBaseAgent exampleConfig (timedWork [5, 7, 1, 8, 2, 2, 4, 1]) 0))
   \<and> totalExecutions (metrics (steps (everySecond [5, 7, 1, 8, 2, 2, 4, 1])
        (newBaseAgent exampleConfig (timedWork [5, 7, 1, 8, 2, 2, 4, 1]) 0))) = 8
   \<and> (\<exists>a. averageExecutionTimeMs (metrics (steps (everySecond [5, 7, 1, 8, 2, 2, 4, 1])
              (newBaseAgent exampleConfig (timedWork [5, 7, 1, 8, 2, 2, 4, 1]) 0))) = Num a
         \<and> \<bar>a - 15 / 4\<bar> \<le> 15 / 4 * (48 * unitRoundoff))"
proof -
  note C = C2_running_mean [of undefined "newBaseAgent exampleConfig failsOnce 0"
        "everySecond [5, 7, 1, 8, 2, 2, 4, 1]" exampleConfig "timedWork [5, 7, 1, 8, 2, 2, 4, 1]" 0,
        unfolded recorded_forward]
  have h: "[5, 7, 1, 8, 2, 2, 4, 1 :: nat] \<noteq> []" "length [5, 7, 1, 8, 2, 2, 4, 1 :: nat] < 2 ^ 32"
    "\<forall>d\<in>set [5, 7, 1, 8, 2, 2, 4, 1 :: nat]. d < 2 ^ 53"
    by simp_all
  have v: "real (sum_list [5, 7, 1, 8, 2, 2, 4, 1]) / real (length [5, 7, 1, 8, 2, 2, 4, 1 :: nat]) = 15 / 4"
    "6 * real (length [5, 7, 1, 8, 2, 2, 4, 1 :: nat]) = 48" "length [5, 7, 1, 8, 2, 2, 4, 1 :: nat] = 8"
    by simp_all
  from C h have "totalExecutions (metrics (steps (everySecond [5, 7, 1, 8, 2, 2, 4, 1])
        (newBaseAgent exampleConfig (timedWork [5, 7, 1, 8, 2, 2, 4, 1]) 0))) =
        length [5, 7, 1, 8, 2, 2, 4, 1 :: nat]"
    and "\<exists>a. averageExecutionTimeMs (metrics (steps (everySecond [5, 7, 1, 8, 2, 2, 4, 1])
              (newBaseAgent exampleConfig (timedWork [5, 7, 1, 8, 2, 2, 4, 1]) 0))) = Num a
         \<and> \<bar>a - real (sum_list [5, 7, 1, 8, 2, 2, 4, 1]) / real (length [5, 7, 1, 8, 2, 2, 4, 1 :: nat])\<bar>
             \<le> real (sum_list [5, 7, 1, 8, 2, 2, 4, 1]) / real (length [5, 7, 1, 8, 2, 2, 4, 1 :: nat])
                * (6 * real (length [5, 7, 1, 8, 2, 2, 4, 1 :: nat]) * unitRoundoff)"
    by blast+
  then have "totalExecutions (metrics (steps (everySecond [5, 7, 1, 8, 2, 2, 4, 1])
        (newBaseAgent exampleConfig (timedWork [5, 7, 1, 8, 2, 2, 4, 1]) 0))) = 8"
    and "\<exists>a. averageExecutionTimeMs (metrics (steps (everySecond [5, 7, 1, 8, 2, 2, 4, 1])
              (newBaseAgent exampleConfig (timedWork [5, 7, 1, 8, 2, 2, 4, 1]) 0))) = Num a
         \<and> \<bar>a - 15 / 4\<bar> \<le> 15 / 4 * (48 * unitRoundoff)"
    unfolding v by simp_all
  moreover have "list_all (\<lambda>d. d < 2 ^ 53) [5, 7, 1, 8, 2, 2, 4, 1 :: nat]"
    by simp
  ultimately show ?thesis
    using h(1,2) unfolding recorded_forward by blast
qed

subsection \<open>The retry loop\<close>








lemma executeWithRetry_loop:
  "executeWithRetry s = retryLoop (now s) 0 None (eventBus_emit (startEvent s) s)"
  by (simp add: executeWithRetry_def startEvent_def Let_def)

lemma emit_fields:
  "config (eventBus_emit ev s) = config s"
  "execute (eventBus_emit ev s) = execute s"
  "execCalls (eventBus_emit ev s) = execCalls s"
  "now (eventBus_emit ev s) = now s"
  "ctx (eventBus_emit ev s) = ctx s"
  "status (eventBus_emit ev s) = status s"
  "metrics (eventBus_emit ev s) = metrics s"
  "effects (eventBus_emit ev s) = effects s @ [Emitted ev]"
  by (simp_all add: eventBus_emit_def)







lemma backoff_first: "0 < k \<Longrightarrow> hd (backoff r a k) = Attempt a"
  by (induction r a k rule: backoff.induct) simp_all


lemma now_withTimeout: "now (snd (withTimeout w s)) = now s + raceTime (config s) w"
  by (simp add: withTimeout_def raceTime_def Let_def min_def split: Work.splits)




























subsection \<open>Terminal failure\<close>



lemma updateMetrics_fields:
  "status (updateMetrics r s) = status s"
  "ctx (updateMetrics r s) = ctx s"
  "config (updateMetrics r s) = config s"
  "effects (updateMetrics r s) = effects s"
  "now (updateMetrics r s) = now s"
  by (simp_all add: updateMetrics_def Let_def)


lemma tick_returns: "fst (tick s) = Fulfilled ()"
proof (cases "status s = Running \<and> enabled (config s)")
  case False
  then show ?thesis by (auto simp: tick_def)
next
  case True
  then show ?thesis
    using tick_eligible [of s] by (auto simp: Let_def)
qed

lemma start_returns: "fst (start i s) = Fulfilled ()"
  by (simp add: start_def tick_returns)




subsection \<open>Skipped ticks\<close>

lemma retryLoop_iteration: "iteration (ctx (snd (retryLoop t a e s))) = iteration (ctx s)"
proof (induction t a e s rule: retryLoop_cases_induct)
  case (exhausted t a e s)
  then show ?case by (simp add: retryLoop_exhausted terminalFailure_fields)
next
  case (success t a e s d)
  then show ?case by (simp add: retryLoop_success emit_fields attemptRace_fields)
next
  case (failure t a e s thrown)
  then show ?case by (simp add: retryLoop_failure attemptRace_fields catchBlock_fields)
qed

lemma tick_skipped:
  "status s \<noteq> Running \<or> \<not> enabled (config s) \<Longrightarrow> tick s = (Fulfilled (), s)"
  by (auto simp: tick_def)

lemma tick_iteration:
  assumes "status s = Running" and "enabled (config s)"
  shows "iteration (ctx (snd (tick s))) = iteration (ctx s) + 1"
proof -
  define s1 where "s1 = s\<lparr>ctx := (ctx s)\<lparr>iteration := Suc (iteration (ctx s))\<rparr>\<rparr>"
  obtain r where r: "fst (executeWithRetry s1) = Fulfilled r"
    using executeWithRetry_returns by blast
  have "tick s = await (executeWithRetry s1) (\<lambda>result s2.
              let s3 = updateMetrics result s2;
                  s4 = eventBus_emit
                         (createEvent METRICS_UPDATED (id_cfg (config s3))
                            (MetricsPayload (metrics s3)) (now s3)) s3
              in (Fulfilled (), s4))"
    using assms by (simp add: tick_def s1_def Let_def)
  then have "iteration (ctx (snd (tick s))) = iteration (ctx (snd (executeWithRetry s1)))"
    by (simp add: await_Fulfilled [OF r] Let_def emit_fields updateMetrics_fields)
  also have "\<dots> = iteration (ctx s1)"
    by (simp add: executeWithRetry_loop retryLoop_iteration emit_fields)
  finally show ?thesis
    by (simp add: s1_def)
qed

lemma passive_while_not_running:
  "status s \<noteq> Running \<Longrightarrow> list_all isPassive xs \<Longrightarrow>
   status (steps xs s) = status s \<and> effects (steps xs s) = effects s \<and>
   metrics (steps xs s) = metrics s \<and> ctx (steps xs s) = ctx s \<and>
   config (steps xs s) = config s"
proof (induction xs arbitrary: s)
  case Nil
  then show ?case by simp
next
  case (Cons x xs)
  show ?case
  proof (cases x)
    case Trigger
    with Cons.prems have "step x s = s"
      by (simp add: tick_skipped)
    with Cons show ?thesis by simp
  next
    case (Elapse n)
    have "status (steps xs (s\<lparr>now := now s + n\<rparr>)) = status (s\<lparr>now := now s + n\<rparr>) \<and>
          effects (steps xs (s\<lparr>now := now s + n\<rparr>)) = effects (s\<lparr>now := now s + n\<rparr>) \<and>
          metrics (steps xs (s\<lparr>now := now s + n\<rparr>)) = metrics (s\<lparr>now := now s + n\<rparr>) \<and>
          ctx (steps xs (s\<lparr>now := now s + n\<rparr>)) = ctx (s\<lparr>now := now s + n\<rparr>) \<and>
          config (steps xs (s\<lparr>now := now s + n\<rparr>)) = config (s\<lparr>now := now s + n\<rparr>)"
      using Cons.prems by (intro Cons.IH) simp_all
    with Elapse show ?thesis by simp
  qed (use Cons.prems in simp_all)
qed

text \<open>
  C6. A tick while status is not running or config.enabled is false leaves the engine as
  it is: no event, metrics unchanged, iteration unchanged. In particular, after pause()
  on a running engine, any number of periodic triggers (and any time passing) run no
  cycle: status stays paused and effects, metrics and iteration stay as they were; after
  resume() status is running again and the next tick of an enabled engine runs a cycle
  (iteration advances by one).
\<close>

theorem C6_skipped_tick:
  "(status s \<noteq> Running \<or> \<not> enabled (config s) \<longrightarrow>
      tick s = (Fulfilled (), s)
      \<and> effects (snd (tick s)) = effects s
      \<and> metrics (snd (tick s)) = metrics s
      \<and> iteration (ctx (snd (tick s))) = iteration (ctx s))
   \<and> (status s = Running \<and> list_all isPassive xs \<longrightarrow>
      status (snd (pause s)) = Paused
      \<and> status (steps xs (snd (pause s))) = Paused
      \<and> effects (steps xs (snd (pause s))) = effects (snd (pause s))
      \<and> metrics (steps xs (snd (pause s))) = metrics (snd (pause s))
      \<and> iteration (ctx (steps xs (snd (pause s)))) = iteration (ctx s)
      \<and> status (snd (resume (steps xs (snd (pause s))))) = Running
      \<and> (enabled (config s) \<longrightarrow>
           iteration (ctx (snd (tick (snd (resume (steps xs (snd (pause s)))))))) =
           iteration (ctx s) + 1))"
proof -
  have a: "tick s = (Fulfilled (), s)
      \<and> effects (snd (tick s)) = effects s
      \<and> metrics (snd (tick s)) = metrics s
      \<and> iteration (ctx (snd (tick s))) = iteration (ctx s)"
    if "status s \<noteq> Running \<or> \<not> enabled (config s)"
    using tick_skipped [OF that] by simp
  have b: "status (snd (pause s)) = Paused
      \<and> status (steps xs (snd (pause s))) = Paused
      \<and> effects (steps xs (snd (pause s))) = effects (snd (pause s))
      \<and> metrics (steps xs (snd (pause s))) = metrics (snd (pause s))
      \<and> iteration (ctx (steps xs (snd (pause s)))) = iteration (ctx s)
      \<and> status (snd (resume (steps xs (snd (pause s))))) = Running
      \<and> (enabled (config s) \<longrightarrow>
           iteration (ctx (snd (tick (snd (resume (steps xs (snd (pause s)))))))) =
           iteration (ctx s) + 1)"
    if r: "status s = Running" and p: "list_all isPassive xs"
  proof -
    define q where "q = snd (pause s)"
    define q' where "q' = steps xs q"
    have q: "status q = Paused" "iteration (ctx q) = iteration (ctx s)" "config q = config s"
      using r by (simp_all add: q_def pause_def Let_def onPause_def eventBus_emit_def)
    have f: "status q' = status q" "effects q' = effects q" "metrics q' = metrics q"
      "ctx q' = ctx q" "config q' = config q"
      unfolding q'_def using passive_while_not_running [of q xs] q(1) p by simp_all
    define u where "u = snd (resume q')"
    have u: "status u = Running" "iteration (ctx u) = iteration (ctx s)" "config u = config s"
      using f q by (simp_all add: u_def resume_def Let_def onResume_def eventBus_emit_def)
    have t: "enabled (config s) \<longrightarrow> iteration (ctx (snd (tick u))) = iteration (ctx s) + 1"
      using tick_iteration [of u] u by simp
    have "status q = Paused
      \<and> status q' = Paused
      \<and> effects q' = effects q
      \<and> metrics q' = metrics q
      \<and> iteration (ctx q') = iteration (ctx s)
      \<and> status u = Running
      \<and> (enabled (config s) \<longrightarrow> iteration (ctx (snd (tick u))) = iteration (ctx s) + 1)"
      using f q u t by simp
    then show ?thesis
      unfolding u_def q'_def q_def .
  qed
  from a b show ?thesis
    by blast
qed

text \<open>
  An idle engine; and an engine (timeoutMs 50, retryDelayMs 100, first call of the unit of
  work never settling, later calls resolving after 7 ms) that is started at time 0 with
  intervalMs 200. Its first cycle ends at 157, before the trigger is first due. It is
  paused then; the trigger fires at 200 and at 400 and runs no cycle; at 600 the engine
  is resumed and the trigger that fires then runs the second cycle.
\<close>

theorem C6_skipped_tick_witness:
  "status (newBaseAgent exampleConfig failsOnce 0) \<noteq> Running
   \<and> tick (newBaseAgent exampleConfig failsOnce 0) =
       (Fulfilled (), newBaseAgent exampleConfig failsOnce 0)
   \<and> status (steps [Start (Some 200)] (newBaseAgent exampleConfig failsOnce 0)) = Running
   \<and> now (steps [Start (Some 200)] (newBaseAgent exampleConfig failsOnce 0)) = 157
   \<and> noTriggerDue (startBeforeTick (Some 200) (newBaseAgent exampleConfig failsOnce 0)) 0 157
   \<and> list_all isPassive [Elapse 43, Trigger, Elapse 200, Trigger, Elapse 200]
   \<and> now (steps [Elapse 43, Trigger, Elapse 200, Trigger, Elapse 200]
         (snd (pause (steps [Start (Some 200)] (newBaseAgent exampleConfig failsOnce 0))))) = 600
   \<and> iteration (ctx (steps [Elapse 43, Trigger, Elapse 200, Trigger, Elapse 200]
         (snd (pause (steps [Start (Some 200)] (newBaseAgent exampleConfig failsOnce 0)))))) = 1
   \<and> iteration (ctx (snd (tick (snd (resume (steps [Elapse 43, Trigger, Elapse 200, Trigger, Elapse 200]
         (snd (pause (steps [Start (Some 200)] (newBaseAgent exampleConfig failsOnce 0)))))))))) = 2"
proof -
  define A :: "unit BaseAgent" where "A = newBaseAgent exampleConfig failsOnce 0"
  define S where "S = steps [Start (Some 200)] A"
  have a: "status A \<noteq> Running"
    by (simp add: A_def newBaseAgent_def)
  have s: "status S = Running" and e: "enabled (config S)" and i: "iteration (ctx S) = 1"
    and n: "now S = 157"
    unfolding S_def A_def by code_simp+
  have d: "noTriggerDue (startBeforeTick (Some 200) A) 0 157"
    unfolding A_def by code_simp
  have t: "now (steps [Elapse 43, Trigger, Elapse 200, Trigger, Elapse 200] (snd (pause S))) = 600"
    unfolding S_def A_def by code_simp
  have p: "list_all isPassive [Elapse 43, Trigger, Elapse 200, Trigger, Elapse 200]"
    by simp
  from C6_skipped_tick [of A "[]"] a have "tick A = (Fulfilled (), A)"
    by simp
  moreover from C6_skipped_tick [of S "[Elapse 43, Trigger, Elapse 200, Trigger, Elapse 200]"] s e i p
  have "iteration (ctx (steps [Elapse 43, Trigger, Elapse 200, Trigger, Elapse 200] (snd (pause S)))) = 1
      \<and> iteration (ctx (snd (tick (snd (resume (steps [Elapse 43, Trigger, Elapse 200, Trigger, Elapse 200]
           (snd (pause S)))))))) = 2"
    by simp
  ultimately show ?thesis
    using a s p n d t unfolding S_def A_def by blast
qed

subsection \<open>The first part of a tick\<close>

lemma tickUntilAwait_enters:
  assumes "status s = Running" and "enabled (config s)" and "0 < maxRetries (config s)"
  shows "fst (tickUntilAwait s) = Some (now s + raceTime (config s) (execute s (execCalls s)))"
    and "iteration (ctx (snd (tickUntilAwait s))) = iteration (ctx s) + 1"
    and "execCalls (snd (tickUntilAwait s)) = execCalls s + 1"
    and "status (snd (tickUntilAwait s)) = Running"
    and "config (snd (tickUntilAwait s)) = config s"
    and "timers (snd (tickUntilAwait s)) = timers s"
    and "now (snd (tickUntilAwait s)) = now s"
  using assms
  by (simp_all add: tickUntilAwait_def Let_def callExecute_def eventBus_emit_def now_withTimeout)


lemma tickUntilAwait_skips:
  "status s \<noteq> Running \<or> \<not> enabled (config s) \<Longrightarrow> tickUntilAwait s = (None, s)"
  by (auto simp: tickUntilAwait_def)

subsection \<open>start\<close>







section \<open>Properties of the engine on the event loop\<close>

text \<open>
  C5 as stated fails. An engine with the default configuration (timeoutMs 30000) whose
  unit of work needs 100 ms is started at time 0 with intervalMs 10. The cycle of
  \<open>start\<close> is suspended until 100. At time 10 the periodic trigger fires; status is
  still running, so \<open>tick\<close> starts a second cycle: two cycle bodies are outstanding.
\<close>

theorem C5_overlap_counterexample:
  "suspended (timerFires 10 (callStart (Some 10) slowLoop)) = [100, 110]
   \<and> length (outstanding 10 (timerFires 10 (callStart (Some 10) slowLoop))) = 2
   \<and> iteration (ctx (engine (timerFires 10 (callStart (Some 10) slowLoop)))) = 2"
  by (simp add: slowLoop_def defaultConfig_def slowWork_def newBaseAgent_def resolveConfig_def
      callStart_def timerFires_def enterTick_def tickUntilAwait_def startBeforeTick_def
      setInterval_def onStart_def eventBus_emit_def createEvent_def callExecute_def
      withTimeout_def due_def outstanding_def Let_def)

text \<open>
  C5, amended. The engine keeps no record of a cycle in flight: tick tests only status
  and config.enabled. Whenever a periodic trigger fires while status is running and
  enabled is true (maxRetries positive), a new cycle body starts, whatever cycle bodies
  are still suspended: iteration advances, the unit of work is called once more, the
  new body is suspended until its race settles, status stays running and the trigger
  stays armed, so the number of outstanding cycle bodies grows by one (when the race
  takes time) and is not bounded by one. A trigger that fires while status is not
  running or enabled is false starts nothing.
\<close>

theorem C5_no_inflight_guard:
  "(status (engine L) = Running \<and> enabled (config (engine L)) \<and> 0 < maxRetries (config (engine L))
      \<and> now (engine L) \<le> t \<and> list_ex (due t) (timers (engine L)) \<longrightarrow>
        suspended (timerFires t L) =
          suspended L @ [t + raceTime (config (engine L)) (execute (engine L) (execCalls (engine L)))]
      \<and> iteration (ctx (engine (timerFires t L))) = iteration (ctx (engine L)) + 1
      \<and> execCalls (engine (timerFires t L)) = execCalls (engine L) + 1
      \<and> status (engine (timerFires t L)) = Running
      \<and> enabled (config (engine (timerFires t L)))
      \<and> timers (engine (timerFires t L)) = timers (engine L)
      \<and> (0 < raceTime (config (engine L)) (execute (engine L) (execCalls (engine L))) \<longrightarrow>
           length (outstanding t (timerFires t L)) = length (outstanding t L) + 1))
   \<and> (status (engine L) \<noteq> Running \<or> \<not> enabled (config (engine L)) \<longrightarrow>
        suspended (timerFires t L) = suspended L
      \<and> iteration (ctx (engine (timerFires t L))) = iteration (ctx (engine L)))"
proof -
  define s where "s = (engine L)\<lparr>now := t\<rparr>"
  have f: "status s = status (engine L)" "config s = config (engine L)"
    "execute s = execute (engine L)" "execCalls s = execCalls (engine L)"
    "ctx s = ctx (engine L)" "now s = t" "timers s = timers (engine L)"
    by (simp_all add: s_def)
  have a: "suspended (timerFires t L) =
          suspended L @ [t + raceTime (config (engine L)) (execute (engine L) (execCalls (engine L)))]
      \<and> iteration (ctx (engine (timerFires t L))) = iteration (ctx (engine L)) + 1
      \<and> execCalls (engine (timerFires t L)) = execCalls (engine L) + 1
      \<and> status (engine (timerFires t L)) = Running
      \<and> enabled (config (engine (timerFires t L)))
      \<and> timers (engine (timerFires t L)) = timers (engine L)
      \<and> (0 < raceTime (config (engine L)) (execute (engine L) (execCalls (engine L))) \<longrightarrow>
           length (outstanding t (timerFires t L)) = length (outstanding t L) + 1)"
    if h: "status (engine L) = Running" "enabled (config (engine L))"
      "0 < maxRetries (config (engine L))" "now (engine L) \<le> t"
      "list_ex (due t) (timers (engine L))"
  proof -
    have r: "status s = Running" "enabled (config s)" "0 < maxRetries (config s)"
      using h f by simp_all
    note e = tickUntilAwait_enters [OF r]
    obtain s' where s': "tickUntilAwait s =
        (Some (t + raceTime (config (engine L)) (execute (engine L) (execCalls (engine L)))), s')"
      using e(1) f by (cases "tickUntilAwait s") simp
    then have s'_eq: "s' = snd (tickUntilAwait s)"
      by simp
    have tf: "timerFires t L =
        L\<lparr>engine := s',
          suspended := suspended L @
            [t + raceTime (config (engine L)) (execute (engine L) (execCalls (engine L)))]\<rparr>"
      using h s' by (simp add: timerFires_def enterTick_def s_def [symmetric])
    show ?thesis
      using e f h(2) by (simp add: tf s'_eq outstanding_def)
  qed
  have b: "suspended (timerFires t L) = suspended L
      \<and> iteration (ctx (engine (timerFires t L))) = iteration (ctx (engine L))"
    if h: "status (engine L) \<noteq> Running \<or> \<not> enabled (config (engine L))"
  proof -
    have "tickUntilAwait s = (None, s)"
      using h f by (intro tickUntilAwait_skips) simp
    then show ?thesis
      by (simp add: timerFires_def enterTick_def s_def [symmetric] f)
  qed
  from a b show ?thesis
    by blast
qed

theorem C5_no_inflight_guard_witness:
  "status (engine (callStart (Some 10) slowLoop)) = Running
   \<and> enabled (config (engine (callStart (Some 10) slowLoop)))
   \<and> 0 < maxRetries (config (engine (callStart (Some 10) slowLoop)))
   \<and> now (engine (callStart (Some 10) slowLoop)) \<le> 20
   \<and> list_ex (due 20) (timers (engine (callStart (Some 10) slowLoop)))
   \<and> suspended (callStart (Some 10) slowLoop) = [100]
   \<and> suspended (timerFires 20 (callStart (Some 10) slowLoop)) = [100, 120]
   \<and> length (outstanding 20 (timerFires 20 (callStart (Some 10) slowLoop))) = 2"
proof -
  define L where "L = callStart (Some 10) slowLoop"
  have e: "engine L =
      snd (callExecute 0 (eventBus_emit
        (startEvent ((startBeforeTick (Some 10) (engine slowLoop))
           \<lparr>ctx := (ctx (startBeforeTick (Some 10) (engine slowLoop)))\<lparr>iteration := 1\<rparr>\<rparr>))
        ((startBeforeTick (Some 10) (engine slowLoop))
           \<lparr>ctx := (ctx (startBeforeTick (Some 10) (engine slowLoop)))\<lparr>iteration := 1\<rparr>\<rparr>)))"
    and sp: "suspended L = [100]"
    by (simp_all add: L_def slowLoop_def defaultConfig_def slowWork_def newBaseAgent_def
        resolveConfig_def callStart_def enterTick_def tickUntilAwait_def startBeforeTick_def
        setInterval_def onStart_def eventBus_emit_def createEvent_def callExecute_def
        withTimeout_def startEvent_def Let_def)
  have h: "status (engine L) = Running" "enabled (config (engine L))"
    "0 < maxRetries (config (engine L))" "now (engine L) \<le> 20"
    "list_ex (due 20) (timers (engine L))"
    and r: "raceTime (config (engine L)) (execute (engine L) (execCalls (engine L))) = 100"
    by (simp_all add: e slowLoop_def defaultConfig_def slowWork_def newBaseAgent_def
        resolveConfig_def startBeforeTick_def setInterval_def onStart_def eventBus_emit_def
        createEvent_def callExecute_def startEvent_def due_def raceTime_def Let_def)
  from C5_no_inflight_guard [of L 20] h r sp
  have "suspended (timerFires 20 L) = [100, 120]
      \<and> length (outstanding 20 (timerFires 20 L)) = length (outstanding 20 L) + 1"
    by simp
  moreover have "length (outstanding 20 L) = 1"
    by (simp add: outstanding_def sp)
  ultimately show ?thesis
    using h sp unfolding L_def by simp
qed

section \<open>Properties of the fleet manager\<close>

lemma map_of_storeAgent:
  "map_of (agents (storeAgent k a m)) k' =
     (if k' = k then map_option (\<lambda>managed. managed\<lparr>agent := a\<rparr>) (map_of (agents m) k)
      else map_of (agents m) k')"
proof -
  have "map_of (map (\<lambda>(j, managed). if j = k then (j, managed\<lparr>agent := a\<rparr>) else (j, managed)) xs) k' =
     (if k' = k then map_option (\<lambda>managed. managed\<lparr>agent := a\<rparr>) (map_of xs k)
      else map_of xs k')" for xs :: "(string \<times> 'a ManagedAgent) list"
    by (induction xs) auto
  then show ?thesis
    by (simp add: storeAgent_def)
qed

lemma count_storeAgent: "getAgentCount (storeAgent k a m) = getAgentCount m"
  by (simp add: storeAgent_def getAgentCount_def)

text \<open>
  C8. register with an id that is already present is rejected with the duplicate-id
  error and leaves the manager as it is (the registration and the count are unchanged);
  with a new id it adds the entry. startAgent, stopAgent, pauseAgent and resumeAgent with
  an absent id are rejected with the not-found error and leave the manager, hence every
  engine, as it is; with a present id their outcome is the outcome of start (with the
  entry's interval), stop, pause or resume of that entry's engine, whose new state is
  stored in that entry while every other entry and the count stay as they are.
\<close>

theorem C8_manager_errors:
  "(map_of (agents m) (id_cfg (config a)) \<noteq> None \<longrightarrow>
      register a i m = (Rejected (alreadyRegistered (id_cfg (config a))), m))
   \<and> (map_of (agents m) (id_cfg (config a)) = None \<longrightarrow>
      fst (register a i m) = Fulfilled ()
      \<and> map_of (agents (snd (register a i m))) (id_cfg (config a)) = Some \<lparr>agent = a, intervalMs = i\<rparr>
      \<and> getAgentCount (snd (register a i m)) = getAgentCount m + 1)
   \<and> (map_of (agents m) k = None \<longrightarrow>
      startAgent k m = (Rejected (notFound k), m)
      \<and> stopAgent k m = (Rejected (notFound k), m)
      \<and> pauseAgent k m = (Rejected (notFound k), m)
      \<and> resumeAgent k m = (Rejected (notFound k), m))
   \<and> (map_of (agents m) k = Some managed \<longrightarrow>
      startAgent k m =
        (fst (start (intervalMs managed) (agent managed)),
         storeAgent k (snd (start (intervalMs managed) (agent managed))) m)
      \<and> stopAgent k m = (fst (stop (agent managed)), storeAgent k (snd (stop (agent managed))) m)
      \<and> pauseAgent k m = (fst (pause (agent managed)), storeAgent k (snd (pause (agent managed))) m)
      \<and> resumeAgent k m = (fst (resume (agent managed)), storeAgent k (snd (resume (agent managed))) m)
      \<and> map_of (agents (storeAgent k a' m)) k = Some (managed\<lparr>agent := a'\<rparr>)
      \<and> (\<forall>k'. k' \<noteq> k \<longrightarrow> map_of (agents (storeAgent k a' m)) k' = map_of (agents m) k')
      \<and> getAgentCount (storeAgent k a' m) = getAgentCount m)"
  by (simp add: register_def startAgent_def stopAgent_def pauseAgent_def resumeAgent_def
      getAgentCount_def map_of_storeAgent count_storeAgent [unfolded getAgentCount_def]
      Let_def split_beta map_add_def)

theorem C8_manager_errors_witness:
  "map_of (agents oneAgentFleet) (id_cfg (config (newBaseAgent exampleConfig alwaysFails 5))) \<noteq> None
   \<and> register (newBaseAgent exampleConfig alwaysFails 5) (Some 10) oneAgentFleet =
       (Rejected (alreadyRegistered ''a1''), oneAgentFleet)
   \<and> getAgentCount oneAgentFleet = 1
   \<and> map_of (agents oneAgentFleet) ''zz'' = None
   \<and> pauseAgent ''zz'' oneAgentFleet = (Rejected (notFound ''zz''), oneAgentFleet)
   \<and> startAgent ''a1'' oneAgentFleet =
       (fst (start None (newBaseAgent exampleConfig failsOnce 0)),
        storeAgent ''a1'' (snd (start None (newBaseAgent exampleConfig failsOnce 0))) oneAgentFleet)"
proof -
  define A :: "unit BaseAgent" where "A = newBaseAgent exampleConfig failsOnce 0"
  define B :: "unit BaseAgent" where "B = newBaseAgent exampleConfig alwaysFails 5"
  have m: "agents oneAgentFleet = [(''a1'', \<lparr>agent = A, intervalMs = None\<rparr>)]"
    by (simp add: oneAgentFleet_def register_def newAgentManager_def A_def newBaseAgent_def
        resolveConfig_def exampleConfig_def Let_def)
  have i: "id_cfg (config B) = ''a1''"
    by (simp add: B_def newBaseAgent_def resolveConfig_def exampleConfig_def)
  have h1: "map_of (agents oneAgentFleet) (id_cfg (config B)) \<noteq> None"
    and h2: "map_of (agents oneAgentFleet) ''zz'' = None"
    and h3: "map_of (agents oneAgentFleet) ''a1'' = Some \<lparr>agent = A, intervalMs = None\<rparr>"
    and n: "getAgentCount oneAgentFleet = 1"
    by (simp_all add: m i getAgentCount_def)
  from C8_manager_errors [of oneAgentFleet B "Some 10" "''zz''"] h1 h2 i
  have "register B (Some 10) oneAgentFleet = (Rejected (alreadyRegistered ''a1''), oneAgentFleet)
      \<and> pauseAgent ''zz'' oneAgentFleet = (Rejected (notFound ''zz''), oneAgentFleet)"
    by simp
  moreover from C8_manager_errors [of oneAgentFleet B "Some 10" "''a1''" "\<lparr>agent = A, intervalMs = None\<rparr>"] h3
  have "startAgent ''a1'' oneAgentFleet =
       (fst (start None A), storeAgent ''a1'' (snd (start None A)) oneAgentFleet)"
    by simp
  ultimately show ?thesis
    using h1 h2 n unfolding A_def B_def by blast
qed

section \<open>Properties of the event bus\<close>

lemma shrinks_refl: "shrinks b b"
  by (simp add: shrinks_def)

lemma shrinks_trans: "shrinks a b \<Longrightarrow> shrinks b c \<Longrightarrow> shrinks a c"
  unfolding shrinks_def by (meson subset_trans)

lemma shrinks_registered: "shrinks b b' \<Longrightarrow> \<not> registered c b \<Longrightarrow> \<not> registered c b'"
  by (cases c) (auto simp: shrinks_def)

lemma callUnsubscribe_shrinks: "shrinks b (callUnsubscribe sub b)"
  by (auto simp: shrinks_def callUnsubscribe_def handlersFor_def set_delete_def
      split: Captured.splits option.splits)

lemma callUnsubscribe_removes: "\<not> registered (unsubscribe sub) (callUnsubscribe sub b)"
  by (cases "unsubscribe sub")
     (auto simp: callUnsubscribe_def handlersFor_def set_delete_def split: option.splits)

lemma callUnsubscribe_invoked: "invoked (callUnsubscribe sub b) = invoked b"
  by (simp add: callUnsubscribe_def split: Captured.splits option.splits)

lemma fold_unsubscribe_shrinks: "shrinks b (fold callUnsubscribe subs b)"
proof (induction subs arbitrary: b)
  case Nil
  then show ?case by (simp add: shrinks_refl)
next
  case (Cons sub subs)
  from shrinks_trans [OF callUnsubscribe_shrinks Cons.IH] show ?case by simp
qed

lemma fold_unsubscribe_removes:
  "sub \<in> set subs \<Longrightarrow> \<not> registered (unsubscribe sub) (fold callUnsubscribe subs b)"
proof (induction subs arbitrary: b)
  case Nil
  then show ?case by simp
next
  case (Cons x subs)
  show ?case
  proof (cases "sub \<in> set subs")
    case True
    with Cons.IH show ?thesis by simp
  next
    case False
    with Cons.prems have "x = sub" by simp
    then have "\<not> registered (unsubscribe sub) (callUnsubscribe x b)"
      by (simp add: callUnsubscribe_removes)
    with fold_unsubscribe_shrinks [of "callUnsubscribe x b" subs] show ?thesis
      by (auto dest: shrinks_registered)
  qed
qed

lemma fold_unsubscribe_invoked: "invoked (fold callUnsubscribe subs b) = invoked b"
  by (induction subs arbitrary: b) (simp_all add: callUnsubscribe_invoked)

lemma invokeHandler_facts:
  "invoked (snd (invokeHandler run event h b)) = invoked b @ [(h, event)]"
  "shrinks b (snd (invokeHandler run event h b))"
  "sub \<in> set (cancels (run h)) \<Longrightarrow>
     \<not> registered (unsubscribe sub) (snd (invokeHandler run event h b))"
  "fst (invokeHandler run event h b) =
     (if ending (run h) = NeverSettles then Pending else Fulfilled ())"
proof -
  let ?b1 = "b\<lparr>invoked := invoked b @ [(h, event)]\<rparr>"
  let ?b2 = "fold callUnsubscribe (cancels (run h)) ?b1"
  have s1: "shrinks b ?b1"
    by (simp add: shrinks_def handlersFor_def)
  have s2: "shrinks b ?b2"
    using shrinks_trans [OF s1 fold_unsubscribe_shrinks] .
  have l: "shrinks ?b2 (?b2\<lparr>logged := x\<rparr>)" for x
    by (simp add: shrinks_def handlersFor_def)
  show "invoked (snd (invokeHandler run event h b)) = invoked b @ [(h, event)]"
    by (simp add: invokeHandler_def Let_def fold_unsubscribe_invoked split: Ending.splits)
  show "shrinks b (snd (invokeHandler run event h b))"
    using s2 shrinks_trans [OF s2 l]
    by (simp add: invokeHandler_def Let_def split: Ending.splits)
  show "\<not> registered (unsubscribe sub) (snd (invokeHandler run event h b))"
    if "sub \<in> set (cancels (run h))"
    using fold_unsubscribe_removes [OF that, of ?b1] shrinks_registered [OF l]
    by (simp add: invokeHandler_def Let_def split: Ending.splits)
  show "fst (invokeHandler run event h b) =
     (if ending (run h) = NeverSettles then Pending else Fulfilled ())"
    by (simp add: invokeHandler_def Let_def split: Ending.splits)
qed

lemma mapHandlers_facts:
  "invoked (snd (mapHandlers run event hs b)) = invoked b @ map (\<lambda>h. (h, event)) hs"
  "shrinks b (snd (mapHandlers run event hs b))"
  "fst (mapHandlers run event hs b) =
     map (\<lambda>h. if ending (run h) = NeverSettles then Pending else Fulfilled ()) hs"
proof (induction hs arbitrary: b)
  case Nil
  {
    case 1 show ?case by simp
  next
    case 2 show ?case by (simp add: shrinks_refl)
  next
    case 3 show ?case by simp
  }
next
  case (Cons h hs)
  {
    case 1
    show ?case
      using Cons(1) [of "snd (invokeHandler run event h b)"]
      by (simp add: split_beta invokeHandler_facts)
  next
    case 2
    show ?case
      using shrinks_trans [OF invokeHandler_facts(2) Cons(2), of b run event h]
      by (simp add: split_beta)
  next
    case 3
    show ?case
      using Cons(3) [of "snd (invokeHandler run event h b)"]
      by (simp add: split_beta invokeHandler_facts)
  }
qed

lemma mapHandlers_removes:
  "g \<in> set hs \<Longrightarrow> sub \<in> set (cancels (run g)) \<Longrightarrow>
   \<not> registered (unsubscribe sub) (snd (mapHandlers run event hs b))"
proof (induction hs arbitrary: b)
  case Nil
  then show ?case by simp
next
  case (Cons h hs)
  show ?case
  proof (cases "g \<in> set hs")
    case True
    from Cons.IH [OF True Cons.prems(2)] show ?thesis
      by (simp add: split_beta)
  next
    case False
    with Cons.prems have "h = g" by simp
    with Cons.prems(2) have "\<not> registered (unsubscribe sub) (snd (invokeHandler run event h b))"
      by (simp add: invokeHandler_facts)
    with mapHandlers_facts(2) [of "snd (invokeHandler run event h b)" run event hs]
    show ?thesis
      by (auto simp: split_beta dest: shrinks_registered)
  qed
qed

lemma promiseAll_settled:
  "promiseAll (map (\<lambda>h. if ending (run h) = NeverSettles then Pending else Fulfilled ()) hs) =
     (if \<exists>h\<in>set hs. ending (run h) = NeverSettles then Pending else Fulfilled ())"
  by (induction hs) auto

lemma emit_mapHandlers:
  "emit run event b =
     (promiseAll (fst (mapHandlers run event (allHandlers b event) b)),
      snd (mapHandlers run event (allHandlers b event) b))"
  by (simp add: emit_def allHandlers_def handlersFor_def Let_def split_beta)

lemma emit_facts:
  "invoked (snd (emit run event b)) = invoked b @ map (\<lambda>h. (h, event)) (allHandlers b event)"
  "shrinks b (snd (emit run event b))"
  "fst (emit run event b) =
     (if \<exists>h\<in>set (allHandlers b event). ending (run h) = NeverSettles then Pending else Fulfilled ())"
  "g \<in> set (allHandlers b event) \<Longrightarrow> sub \<in> set (cancels (run g)) \<Longrightarrow>
     \<not> registered (unsubscribe sub) (snd (emit run event b))"
  by (simp_all only: emit_mapHandlers fst_conv snd_conv mapHandlers_facts mapHandlers_removes
      promiseAll_settled not_False_eq_True)

lemma shrinks_reaches: "shrinks b b' \<Longrightarrow> reaches b' h t \<Longrightarrow> reaches b h t"
  by (auto simp: shrinks_def reaches_def)

lemma emitAll_shrinks: "shrinks b (emitAll run events b)"
proof (induction events arbitrary: b)
  case Nil
  then show ?case by (simp add: shrinks_refl)
next
  case (Cons event events)
  from shrinks_trans [OF emit_facts(2) Cons.IH] show ?case by simp
qed

lemma emitAll_invoked:
  "\<exists>new. invoked (emitAll run events b) = invoked b @ new \<and>
         (\<forall>x\<in>set new. reaches b (fst x) (type_ev (snd x)))"
proof (induction events arbitrary: b)
  case Nil
  then show ?case by simp
next
  case (Cons event events)
  let ?b1 = "snd (emit run event b)"
  from Cons.IH [of ?b1] obtain new where
    n: "invoked (emitAll run events ?b1) = invoked ?b1 @ new"
    and r: "\<forall>x\<in>set new. reaches ?b1 (fst x) (type_ev (snd x))"
    by (elim exE conjE) (rule that)
  have r': "\<forall>x\<in>set new. reaches b (fst x) (type_ev (snd x))"
    using r shrinks_reaches [OF emit_facts(2) [where b = b and run = run and event = event]]
    by blast
  have f: "\<forall>x\<in>set (map (\<lambda>h. (h, event)) (allHandlers b event)). reaches b (fst x) (type_ev (snd x))"
    by (auto simp: reaches_def allHandlers_def)
  show ?case
    using n r' f
    by (intro exI [of _ "map (\<lambda>h. (h, event)) (allHandlers b event) @ new"])
       (simp add: emit_facts(1) ball_Un)
qed

lemma later_emissions:
  "\<forall>x\<in>set (drop (length (invoked b)) (invoked (emitAll run events b))).
     reaches b (fst x) (type_ev (snd x))"
proof -
  from emitAll_invoked [of run events b] obtain new where
    "invoked (emitAll run events b) = invoked b @ new"
    and "\<forall>x\<in>set new. reaches b (fst x) (type_ev (snd x))"
    by (elim exE conjE) (rule that)
  then show ?thesis by simp
qed

text \<open>
  C9. emit calls every handler registered for the event's type and every wildcard
  handler, each once and in that order, whatever the earlier handlers do. The promise of
  emit is never rejected: a handler that throws or whose promise is rejected is caught
  (and logged); emit is fulfilled as soon as no called handler's promise stays pending
  for ever. When a called handler cancels a subscription during the emission, the pass
  still calls all handlers of its array, and after it the cancelled registration is
  gone: in all later emissions a handler cancelled for type t receives no event of type
  t (unless it is also a wildcard handler), and a cancelled wildcard handler receives
  only events of the types it is subscribed to.
\<close>

theorem C9_emit_isolates_handlers:
  "invoked (snd (emit run event b)) =
     invoked b @ map (\<lambda>h. (h, event)) (handlersFor b (type_ev event) @ wildcardHandlers b)
   \<and> (\<forall>e. fst (emit run event b) \<noteq> Rejected e)
   \<and> ((\<forall>h\<in>set (allHandlers b event). ending (run h) \<noteq> NeverSettles) \<longrightarrow>
        fst (emit run event b) = Fulfilled ())
   \<and> (g \<in> set (allHandlers b event) \<and> sub \<in> set (cancels (run g)) \<longrightarrow>
        \<not> registered (unsubscribe sub) (snd (emit run event b))
      \<and> (unsubscribe sub = FromType t h \<and> h \<notin> set (wildcardHandlers b) \<longrightarrow>
           (\<forall>x\<in>set (drop (length (invoked (snd (emit run event b))))
                       (invoked (emitAll run events (snd (emit run event b))))).
              \<not> (fst x = h \<and> type_ev (snd x) = t)))
      \<and> (unsubscribe sub = FromWildcard h \<longrightarrow>
           (\<forall>x\<in>set (drop (length (invoked (snd (emit run event b))))
                       (invoked (emitAll run events (snd (emit run event b))))).
              fst x = h \<longrightarrow> h \<in> set (handlersFor b (type_ev (snd x))))))"
proof -
  let ?b1 = "snd (emit run event b)"
  let ?later = "set (drop (length (invoked ?b1)) (invoked (emitAll run events ?b1)))"
  note sh = emit_facts(2) [where b = b and run = run and event = event]
  have a: "invoked ?b1 =
     invoked b @ map (\<lambda>h. (h, event)) (handlersFor b (type_ev event) @ wildcardHandlers b)"
    by (simp add: emit_facts(1) allHandlers_def)
  have b: "\<forall>e. fst (emit run event b) \<noteq> Rejected e"
    by (simp add: emit_facts(3))
  have c: "(\<forall>h\<in>set (allHandlers b event). ending (run h) \<noteq> NeverSettles) \<longrightarrow>
        fst (emit run event b) = Fulfilled ()"
    by (simp add: emit_facts(3))
  have d: "\<not> registered (unsubscribe sub) ?b1
      \<and> (unsubscribe sub = FromType t h \<and> h \<notin> set (wildcardHandlers b) \<longrightarrow>
           (\<forall>x\<in>?later. \<not> (fst x = h \<and> type_ev (snd x) = t)))
      \<and> (unsubscribe sub = FromWildcard h \<longrightarrow>
           (\<forall>x\<in>?later. fst x = h \<longrightarrow> h \<in> set (handlersFor b (type_ev (snd x)))))"
    if g: "g \<in> set (allHandlers b event)" "sub \<in> set (cancels (run g))"
  proof -
    have u: "\<not> registered (unsubscribe sub) ?b1"
      using g by (rule emit_facts(4))
    have l: "\<forall>x\<in>?later. reaches ?b1 (fst x) (type_ev (snd x))"
      by (rule later_emissions)
    have i: "\<forall>x\<in>?later. \<not> (fst x = h \<and> type_ev (snd x) = t)"
      if "unsubscribe sub = FromType t h" "h \<notin> set (wildcardHandlers b)"
    proof -
      have "\<not> reaches ?b1 h t"
        using u that sh by (auto simp: reaches_def shrinks_def)
      with l show ?thesis by blast
    qed
    have ii: "\<forall>x\<in>?later. fst x = h \<longrightarrow> h \<in> set (handlersFor b (type_ev (snd x)))"
      if "unsubscribe sub = FromWildcard h"
    proof -
      have "h \<notin> set (wildcardHandlers ?b1)"
        using u that by simp
      with l sh show ?thesis
        by (auto simp: reaches_def shrinks_def)
    qed
    from u i ii show ?thesis by blast
  qed
  from a b c d show ?thesis by blast
qed

theorem C9_emit_isolates_handlers_witness:
  "invoked (snd (emit exampleRun exampleEvent exampleBus)) =
     [(1, exampleEvent), (2, exampleEvent), (3, exampleEvent)]
   \<and> fst (emit exampleRun exampleEvent exampleBus) = Fulfilled ()
   \<and> 1 \<in> set (allHandlers exampleBus exampleEvent)
   \<and> secondSubscription \<in> set (cancels (exampleRun 1))
   \<and> 2 \<notin> set (wildcardHandlers exampleBus)
   \<and> \<not> registered (FromType ''x'' 2) (snd (emit exampleRun exampleEvent exampleBus))
   \<and> (2, exampleEvent) \<notin> set (drop 3 (invoked (emitAll exampleRun [exampleEvent, exampleEvent]
          (snd (emit exampleRun exampleEvent exampleBus)))))"
proof -
  have hs: "handlersFor exampleBus ''x'' = [1, 2]" and ws: "wildcardHandlers exampleBus = [3]"
    and iv: "invoked exampleBus = []"
    by (simp_all add: exampleBus_def subscribeAll_def subscribe_def newEventBus_def
        handlersFor_def set_add_def Let_def)
  have ty: "type_ev exampleEvent = ''x''"
    by (simp add: exampleEvent_def createEvent_def)
  have al: "allHandlers exampleBus exampleEvent = [1, 2, 3]"
    by (simp add: allHandlers_def hs ws ty)
  have g: "1 \<in> set (allHandlers exampleBus exampleEvent)"
    "secondSubscription \<in> set (cancels (exampleRun 1))"
    "unsubscribe secondSubscription = FromType ''x'' 2"
    "2 \<notin> set (wildcardHandlers exampleBus)"
    "\<forall>h\<in>set (allHandlers exampleBus exampleEvent). ending (exampleRun h) \<noteq> NeverSettles"
    by (simp_all add: al ws exampleRun_def secondSubscription_def)
  note C = C9_emit_isolates_handlers [of exampleRun exampleEvent exampleBus 1 secondSubscription
      "''x''" 2 "[exampleEvent, exampleEvent]"]
  from C hs ws iv ty have i: "invoked (snd (emit exampleRun exampleEvent exampleBus)) =
     [(1, exampleEvent), (2, exampleEvent), (3, exampleEvent)]"
    by simp
  from C g have f: "fst (emit exampleRun exampleEvent exampleBus) = Fulfilled ()"
    by blast
  from C g have r: "\<not> registered (FromType ''x'' 2) (snd (emit exampleRun exampleEvent exampleBus))"
    by simp
  have len: "length (invoked (snd (emit exampleRun exampleEvent exampleBus))) = 3"
    by (simp add: i)
  from C g have "\<forall>x\<in>set (drop (length (invoked (snd (emit exampleRun exampleEvent exampleBus))))
                       (invoked (emitAll exampleRun [exampleEvent, exampleEvent]
                          (snd (emit exampleRun exampleEvent exampleBus))))).
              \<not> (fst x = 2 \<and> type_ev (snd x) = ''x'')"
    by blast
  then have ball: "\<forall>x\<in>set (drop 3 (invoked (emitAll exampleRun [exampleEvent, exampleEvent]
                          (snd (emit exampleRun exampleEvent exampleBus))))).
              \<not> (fst x = 2 \<and> type_ev (snd x) = ''x'')"
    unfolding len .
  have l: "(2, exampleEvent) \<notin> set (drop 3 (invoked (emitAll exampleRun [exampleEvent, exampleEvent]
          (snd (emit exampleRun exampleEvent exampleBus)))))"
  proof
    assume "(2, exampleEvent) \<in> set (drop 3 (invoked (emitAll exampleRun [exampleEvent, exampleEvent]
          (snd (emit exampleRun exampleEvent exampleBus)))))"
    with ball have "\<not> (fst (2 :: nat, exampleEvent) = 2 \<and> type_ev (snd (2 :: nat, exampleEvent)) = ''x'')"
      by (rule bspec)
    with ty show False
      by simp
  qed
  from i f g(1,2,4) r l show ?thesis
    by blast
qed

lemma subscribe_facts:
  "handlersFor (snd (subscribe t h b)) t' =
     (if t' = t then set_add h (handlersFor b t) else handlersFor b t')"
  "wildcardHandlers (snd (subscribe t h b)) = wildcardHandlers b"
  "invoked (snd (subscribe t h b)) = invoked b"
  "subscriptionCounter (snd (subscribe t h b)) = subscriptionCounter b + 1"
  "fst (subscribe t h b) = \<lparr>id_sub = subscriptionCounter b + 1, unsubscribe = FromType t h\<rparr>"
  by (simp_all add: subscribe_def handlersFor_def Let_def split: option.splits)

lemma subscribeAll_facts:
  "handlersFor (snd (subscribeAll h b)) t = handlersFor b t"
  "wildcardHandlers (snd (subscribeAll h b)) = set_add h (wildcardHandlers b)"
  "fst (subscribeAll h b) = \<lparr>id_sub = subscriptionCounter b + 1, unsubscribe = FromWildcard h\<rparr>"
  by (simp_all add: subscribeAll_def handlersFor_def Let_def)

lemma callUnsubscribe_facts:
  "unsubscribe sub = FromType t h \<Longrightarrow>
     handlersFor (callUnsubscribe sub b) t' =
       (if t' = t then set_delete h (handlersFor b t) else handlersFor b t')"
  "unsubscribe sub = FromType t h \<Longrightarrow> wildcardHandlers (callUnsubscribe sub b) = wildcardHandlers b"
  "unsubscribe sub = FromWildcard h \<Longrightarrow> handlersFor (callUnsubscribe sub b) t' = handlersFor b t'"
  "unsubscribe sub = FromWildcard h \<Longrightarrow>
     wildcardHandlers (callUnsubscribe sub b) = set_delete h (wildcardHandlers b)"
  by (auto simp: callUnsubscribe_def handlersFor_def set_delete_def split: option.splits)

lemma distinct_set_add: "distinct xs \<Longrightarrow> distinct (set_add x xs)"
  by (simp add: set_add_def)

lemma distinct_set_delete: "distinct xs \<Longrightarrow> distinct (set_delete x xs)"
  by (simp add: set_delete_def distinct_removeAll)

lemma setsOk_preserved:
  "setsOk (newEventBus :: 'p EventBus)"
  "setsOk b \<Longrightarrow> setsOk (snd (subscribe t h b))"
  "setsOk b \<Longrightarrow> setsOk (snd (subscribeAll h b))"
  "setsOk b \<Longrightarrow> setsOk (callUnsubscribe sub b)"
  "setsOk b \<Longrightarrow> setsOk (clear b)"
proof -
  show "setsOk (newEventBus :: 'p EventBus)"
    by (simp add: setsOk_def newEventBus_def handlersFor_def)
  show "setsOk b \<Longrightarrow> setsOk (snd (subscribe t h b))"
    by (simp add: setsOk_def subscribe_facts distinct_set_add)
  show "setsOk b \<Longrightarrow> setsOk (snd (subscribeAll h b))"
    by (simp add: setsOk_def subscribeAll_facts distinct_set_add)
  show "setsOk b \<Longrightarrow> setsOk (callUnsubscribe sub b)"
    by (cases "unsubscribe sub") (simp_all add: setsOk_def callUnsubscribe_facts distinct_set_delete)
  show "setsOk b \<Longrightarrow> setsOk (clear b)"
    by (simp add: setsOk_def clear_def handlersFor_def)
qed

lemma count_set_add: "distinct xs \<Longrightarrow> count_list (set_add h xs) h = 1"
  by (induction xs) (auto simp: set_add_def)

lemma count_set_delete: "count_list (set_delete h xs) h = 0"
  by (simp add: set_delete_def)

lemma set_add_idem: "set_add h (set_add h xs) = set_add h xs"
  by (simp add: set_add_def)

lemma count_absent: "h \<notin> set xs \<Longrightarrow> count_list xs h = 0"
  by (induction xs) auto

lemma deliveries_count: "deliveries run event b h = count_list (allHandlers b event) h"
  by (simp add: deliveries_def emit_facts(1) comp_def)

text \<open>
  C10. Registrations are keyed by handler identity per event type. On a bus whose
  handlers for type t form a set and on which h is not a wildcard handler, subscribing h
  to t twice gives two subscriptions with different ids and one registration: the second
  subscribe leaves the handlers of t as they are, h is among them once, and emit of an
  event of type t calls h once. Calling unsubscribe of either subscription removes h:
  emit of an event of type t then calls h zero times.
\<close>

theorem C10_one_registration_per_handler:
  assumes d: "distinct (handlersFor b t)"
    and w: "h \<notin> set (wildcardHandlers b)"
    and ty: "type_ev event = t"
  shows "handlersFor (snd (subscribe t h (snd (subscribe t h b)))) t =
           handlersFor (snd (subscribe t h b)) t
     \<and> count_list (handlersFor (snd (subscribe t h (snd (subscribe t h b)))) t) h = 1
     \<and> deliveries run event (snd (subscribe t h (snd (subscribe t h b)))) h = 1
     \<and> id_sub (fst (subscribe t h b)) \<noteq> id_sub (fst (subscribe t h (snd (subscribe t h b))))
     \<and> deliveries run event
          (callUnsubscribe (fst (subscribe t h b)) (snd (subscribe t h (snd (subscribe t h b))))) h = 0
     \<and> deliveries run event
          (callUnsubscribe (fst (subscribe t h (snd (subscribe t h b))))
             (snd (subscribe t h (snd (subscribe t h b))))) h = 0"
proof -
  define b1 where "b1 = snd (subscribe t h b)"
  define b2 where "b2 = snd (subscribe t h b1)"
  define sub1 where "sub1 = fst (subscribe t h b)"
  define sub2 where "sub2 = fst (subscribe t h b1)"
  have h1: "handlersFor b1 t = set_add h (handlersFor b t)"
    and h2: "handlersFor b2 t = set_add h (handlersFor b t)"
    and w2: "wildcardHandlers b2 = wildcardHandlers b"
    by (simp_all add: b1_def b2_def subscribe_facts set_add_idem)
  have u1: "unsubscribe sub1 = FromType t h" and u2: "unsubscribe sub2 = FromType t h"
    and ids: "id_sub sub1 \<noteq> id_sub sub2"
    by (simp_all add: sub1_def sub2_def b1_def subscribe_facts)
  have c: "count_list (handlersFor b2 t) h = 1"
    using d by (simp add: h2 count_set_add)
  have e: "deliveries run event b2 h = 1"
    using c w ty by (simp add: deliveries_count allHandlers_def w2 count_absent)
  have z: "deliveries run event (callUnsubscribe sub b2) h = 0"
    if "unsubscribe sub = FromType t h" for sub
    using w ty that
    by (simp add: deliveries_count allHandlers_def callUnsubscribe_facts w2 count_absent
        count_set_delete)
  have "handlersFor b2 t = handlersFor b1 t
     \<and> count_list (handlersFor b2 t) h = 1
     \<and> deliveries run event b2 h = 1
     \<and> id_sub sub1 \<noteq> id_sub sub2
     \<and> deliveries run event (callUnsubscribe sub1 b2) h = 0
     \<and> deliveries run event (callUnsubscribe sub2 b2) h = 0"
    using h1 h2 c e ids z [OF u1] z [OF u2] by simp
  then show ?thesis
    unfolding sub1_def sub2_def b2_def b1_def .
qed

theorem C10_one_registration_per_handler_witness:
  "distinct (handlersFor exampleBus ''x'')
   \<and> 1 \<notin> set (wildcardHandlers exampleBus)
   \<and> type_ev exampleEvent = ''x''
   \<and> handlersFor (snd (subscribe ''x'' 1 (snd (subscribe ''x'' 1 exampleBus)))) ''x'' = [1, 2]
   \<and> deliveries exampleRun exampleEvent
        (snd (subscribe ''x'' 1 (snd (subscribe ''x'' 1 exampleBus)))) 1 = 1
   \<and> deliveries exampleRun exampleEvent
        (callUnsubscribe (fst (subscribe ''x'' 1 exampleBus))
           (snd (subscribe ''x'' 1 (snd (subscribe ''x'' 1 exampleBus))))) 1 = 0"
proof -
  have hs: "handlersFor exampleBus ''x'' = [1, 2]" and ws: "wildcardHandlers exampleBus = [3]"
    by (simp_all add: exampleBus_def subscribeAll_def subscribe_def newEventBus_def
        handlersFor_def set_add_def Let_def)
  have ty: "type_ev exampleEvent = ''x''"
    by (simp add: exampleEvent_def createEvent_def)
  have d: "distinct (handlersFor exampleBus ''x'')" and w: "1 \<notin> set (wildcardHandlers exampleBus)"
    by (simp_all add: hs ws)
  have s: "handlersFor (snd (subscribe ''x'' 1 exampleBus)) ''x'' = [1, 2]"
    by (simp add: subscribe_facts hs set_add_def)
  from C10_one_registration_per_handler [OF d w ty, of exampleRun] s d w ty show ?thesis
    by simp
qed

end
